theory Spec2Isabelle
  imports Main "HOL-Library.Word"
begin

unbundle bit_operations_syntax

section \<open>The sharded map of hmap.go\<close>

text \<open>
  The development embeds \<^verbatim>\<open>src/hmap.go\<close>: a string-keyed map whose entries are spread
  over a fixed slice of shards, every shard being a Go map guarded by its own lock.

  Conventions of the embedding.
  \<^item> Go's \<^verbatim>\<open>int\<close> and \<^verbatim>\<open>uint64\<close> are 64-bit words; \<^verbatim>\<open>int\<close> is read with
    \<open>sint\<close>, compared with \<open><s\<close> and shifted right arithmetically
    (\<open>signed_drop_bit\<close>). Lengths and the two counters of \<^verbatim>\<open>Prune\<close> are natural
    numbers: they count entries held in memory and cannot wrap.
  \<^item> A shard's \<^verbatim>\<open>data map[string]V\<close> is a partial function \<open>string \<rightharpoonup> 'v\<close>. The
    mutex and the padding of \<^verbatim>\<open>mapItem\<close> carry no data; execution is sequential, so
    taking and releasing a lock is not represented.
  \<^item> \<^verbatim>\<open>maphash.Seed\<close> is opaque and \<^verbatim>\<open>maphash.String\<close> is a library function. The
    field \<open>seed\<close> of the model holds the keyed hash \<open>\<lambda>key. maphash.String(seed, key)\<close>
    itself, an arbitrary function from strings to 64-bit words; \<^verbatim>\<open>maphash.MakeSeed()\<close>
    becomes an argument of \<open>New\<close>.
  \<^item> Indexing the shard slice out of range panics in Go; every point operation
    returns \<open>panic + result\<close> and the panic is a branch of the model.
  \<^item> A missing key makes Go return the zero value of \<^verbatim>\<open>V\<close>, written \<open>0\<close> here.
\<close>

subsection \<open>Data model\<close>

type_synonym 'v shard = "string \<rightharpoonup> 'v"

record 'v hmap =
  datas :: "'v shard list"
  seed :: "string \<Rightarrow> 64 word"

datatype panic = IndexOutOfRange

definition defaultShardCount :: "64 word" where
  "defaultShardCount = push_bit 6 1"

subsection \<open>Construction\<close>

definition trueShards :: "64 word \<Rightarrow> 64 word" where
  "trueShards shardCount =
     (if shardCount <s 1 then 1
      else if push_bit 16 1 <s shardCount then push_bit 16 1
      else
        let n = shardCount - 1;
            n = n OR signed_drop_bit 1 n;
            n = n OR signed_drop_bit 2 n;
            n = n OR signed_drop_bit 4 n;
            n = n OR signed_drop_bit 8 n;
            n = n OR signed_drop_bit 16 n
        in n + 1)"

text \<open>
  \<open>New sd inShardCount\<close>: \<open>sd\<close> is the hash keyed by the fresh seed, \<open>inShardCount\<close> the
  optional first variadic argument. The slice has \<open>shardCount\<close> elements, each an empty map.
  \<^verbatim>\<open>make\<close> panics on a negative length; \<open>shardCount\<close> is 64 or a result of \<open>trueShards\<close>,
  which lies between 1 and 65536 (lemma \<open>trueShards_pow2\<close>), so the length is read with
  \<open>nat (sint shardCount)\<close>.
\<close>

definition New :: "(string \<Rightarrow> 64 word) \<Rightarrow> 64 word option \<Rightarrow> 'v hmap" where
  "New sd inShardCount =
     (let shardCount = (case inShardCount of None \<Rightarrow> defaultShardCount
                        | Some c \<Rightarrow> trueShards c)
      in \<lparr>datas = replicate (nat (sint shardCount)) Map.empty, seed = sd\<rparr>)"

definition ShardCount :: "'v hmap \<Rightarrow> nat" where
  "ShardCount m = length (datas m)"

subsection \<open>Index computation\<close>

text \<open>
  \<^verbatim>\<open>int(hash & uint64(len(m.datas)-1))\<close>: the subtraction is on \<^verbatim>\<open>int\<close> and wraps to
  all ones for an empty slice; the conversions keep the bits.
\<close>

definition getIndex :: "'v hmap \<Rightarrow> string \<Rightarrow> int" where
  "getIndex m key =
     (let hash = seed m key
      in sint (hash AND (word_of_nat (length (datas m)) - 1)))"

text \<open>\<open>m.datas[index]\<close> as a read and as a write of the shard's map.\<close>

definition shard_at :: "'v hmap \<Rightarrow> int \<Rightarrow> panic + 'v shard" where
  "shard_at m index =
     (if 0 \<le> index \<and> index < int (length (datas m))
      then Inr (datas m ! nat index) else Inl IndexOutOfRange)"

definition set_shard :: "'v hmap \<Rightarrow> int \<Rightarrow> 'v shard \<Rightarrow> 'v hmap" where
  "set_shard m index d = m\<lparr>datas := (datas m)[nat index := d]\<rparr>"

subsection \<open>Point operations\<close>

text \<open>
  Every method has the pointer receiver \<^verbatim>\<open>m *Map[V]\<close>; its model takes the map and
  returns the map it leaves behind next to the method's results.
\<close>

definition Set :: "'v hmap \<Rightarrow> string \<Rightarrow> 'v \<Rightarrow> panic + 'v hmap" where
  "Set m key val =
     (let index = getIndex m key in
      case shard_at m index of
        Inl p \<Rightarrow> Inl p
      | Inr d \<Rightarrow> Inr (set_shard m index (d(key \<mapsto> val))))"

definition SetWithNotExist :: "'v hmap \<Rightarrow> string \<Rightarrow> 'v \<Rightarrow> panic + (('v \<times> bool) \<times> 'v hmap)" where
  "SetWithNotExist m key val =
     (let index = getIndex m key in
      case shard_at m index of
        Inl p \<Rightarrow> Inl p
      | Inr d \<Rightarrow>
          (case d key of
             Some v \<Rightarrow> Inr ((v, False), m)
           | None \<Rightarrow> Inr ((val, True), set_shard m index (d(key \<mapsto> val)))))"

definition Get :: "('v::zero) hmap \<Rightarrow> string \<Rightarrow> panic + (('v \<times> bool) \<times> 'v hmap)" where
  "Get m key =
     (let index = getIndex m key in
      case shard_at m index of
        Inl p \<Rightarrow> Inl p
      | Inr d \<Rightarrow>
          (case d key of Some v \<Rightarrow> Inr ((v, True), m) | None \<Rightarrow> Inr ((0, False), m)))"

definition GetWithDefault ::
  "'v hmap \<Rightarrow> string \<Rightarrow> 'v \<Rightarrow> panic + (('v \<times> bool) \<times> 'v hmap)" where
  "GetWithDefault m key defaultValue =
     (let index = getIndex m key in
      case shard_at m index of
        Inl p \<Rightarrow> Inl p
      | Inr d \<Rightarrow>
          (case d key of
             Some v \<Rightarrow> Inr ((v, True), m)
           | None \<Rightarrow> Inr ((defaultValue, False), m)))"

definition Delete :: "'v hmap \<Rightarrow> string \<Rightarrow> panic + (bool \<times> 'v hmap)" where
  "Delete m key =
     (let index = getIndex m key in
      case shard_at m index of
        Inl p \<Rightarrow> Inl p
      | Inr d \<Rightarrow>
          (case d key of
             None \<Rightarrow> Inr (False, m)
           | Some v \<Rightarrow> Inr (True, set_shard m index (d(key := None)))))"

text \<open>
  The callback of \<^verbatim>\<open>DeleteIf\<close> is a Go closure: it may read and write variables of its
  own. It is a function of the value and of that private state \<open>'s\<close>, and returns the new
  state. It does not touch the map: it runs under the shard's lock, and the source's
  comment warns that reading or writing the map from it may deadlock.
\<close>

definition DeleteIf ::
  "'v hmap \<Rightarrow> string \<Rightarrow> ('v \<Rightarrow> 's \<Rightarrow> bool \<times> 's) \<Rightarrow> 's \<Rightarrow> panic + (bool \<times> 'v hmap \<times> 's)" where
  "DeleteIf m key delIf s =
     (let index = getIndex m key in
      case shard_at m index of
        Inl p \<Rightarrow> Inl p
      | Inr d \<Rightarrow>
          (case d key of
             None \<Rightarrow> Inr (False, m, s)
           | Some v \<Rightarrow>
               (case delIf v s of
                  (False, s') \<Rightarrow> Inr (False, m, s')
                | (True, s') \<Rightarrow> Inr (True, set_shard m index (d(key := None)), s'))))"

subsection \<open>Whole-map operations\<close>

fun Len_loop :: "'v shard list \<Rightarrow> nat \<Rightarrow> nat" where
  "Len_loop [] count = count"
| "Len_loop (d # ds) count = Len_loop ds (count + card (dom d))"

definition Len :: "'v hmap \<Rightarrow> nat" where
  "Len m = Len_loop (datas m) 0"

text \<open>
  Go leaves the order in which \<^verbatim>\<open>range\<close> walks a map unspecified. The order is an
  argument of the model: \<open>ord i d\<close> is the sequence of pairs that the runtime produces
  when the loop over shard \<open>i\<close> walks the map \<open>d\<close>. The theorems hold for every \<open>ord\<close>
  that lists each entry of the map it is given once (\<open>iterates\<close> below).
\<close>

type_synonym 'v iter_order = "nat \<Rightarrow> 'v shard \<Rightarrow> (string \<times> 'v) list"

definition iterates :: "'v iter_order \<Rightarrow> 'v hmap \<Rightarrow> bool" where
  "iterates ord m \<longleftrightarrow>
     (\<forall>i<length (datas m).
        distinct (map fst (ord i (datas m ! i))) \<and> map_of (ord i (datas m ! i)) = datas m ! i)"

text \<open>
  The callback of \<^verbatim>\<open>Prune\<close> is a closure with a private state \<open>'s\<close>, like the one of
  \<^verbatim>\<open>DeleteIf\<close>: it runs under the shard's lock and the source's comment warns against
  reading or writing the map from it.

  The visitor of \<^verbatim>\<open>Range\<close> runs with no lock held: \<^verbatim>\<open>Range\<close> copies shard \<open>i\<close> into
  \<^verbatim>\<open>tmpMaps\<close> under the read lock, releases the lock and then calls the visitor on the
  pairs of the copy. The visitor may therefore call the map's methods. It is a function of
  the pair and of the world it runs in, the map and its private state \<open>'s\<close>, and returns
  its answer and the world it leaves behind.

  The inner loop walks the copy and returns from \<^verbatim>\<open>Range\<close> as soon as the visitor answers
  \<^verbatim>\<open>false\<close>; \<open>Range_entries\<close> answers whether the walk went through. The outer loop
  \<^verbatim>\<open>for i := range m.datas\<close> runs over the indices that the slice has when \<^verbatim>\<open>Range\<close>
  starts, and reads \<^verbatim>\<open>m.datas[i]\<close> from the map as it stands when the loop reaches \<open>i\<close>,
  after the visitor's calls for the earlier shards. No method of the map changes the length
  of the slice; a visitor of the model that shortens it makes that read panic.
\<close>

type_synonym ('v, 's) visitor = "string \<Rightarrow> 'v \<Rightarrow> 'v hmap \<times> 's \<Rightarrow> bool \<times> 'v hmap \<times> 's"

fun Range_entries ::
  "('v, 's) visitor \<Rightarrow> (string \<times> 'v) list \<Rightarrow> 'v hmap \<times> 's \<Rightarrow> bool \<times> 'v hmap \<times> 's" where
  "Range_entries f [] w = (True, w)"
| "Range_entries f ((key, val) # es) w =
     (case f key val w of
        (False, w') \<Rightarrow> (False, w')
      | (True, w') \<Rightarrow> Range_entries f es w')"

fun Range_shards ::
  "'v iter_order \<Rightarrow> ('v, 's) visitor \<Rightarrow> nat list \<Rightarrow> 'v hmap \<times> 's \<Rightarrow> panic + ('v hmap \<times> 's)" where
  "Range_shards ord f [] w = Inr w"
| "Range_shards ord f (i # is) (m, s) =
     (if i < length (datas m) then
        let tmpMaps = datas m ! i in
        case Range_entries f (ord i tmpMaps) (m, s) of
          (False, w') \<Rightarrow> Inr w'
        | (True, w') \<Rightarrow> Range_shards ord f is w'
      else Inl IndexOutOfRange)"

definition Range_hmap ::
  "'v iter_order \<Rightarrow> ('v, 's) visitor \<Rightarrow> 'v hmap \<Rightarrow> 's \<Rightarrow> panic + ('v hmap \<times> 's)" where
  "Range_hmap ord f m s = Range_shards ord f [0..<length (datas m)] (m, s)"

text \<open>
  A visitor that only uses its private state, and the property of a visitor that it leaves
  the slice of shards as long as it found it and the hash seed as it found it. No method of
  the map changes either (lemmas \<open>methods_keep_shards\<close> and \<open>Prune_shards_shape\<close>), so
  that every visitor that acts on the map through the map's methods has the property.
\<close>

definition private_visitor :: "(string \<Rightarrow> 'v \<Rightarrow> 's \<Rightarrow> bool \<times> 's) \<Rightarrow> ('v, 's) visitor" where
  "private_visitor g key val = (\<lambda>(m, s). case g key val s of (b, s') \<Rightarrow> (b, m, s'))"

definition keeps_shards :: "('v, 's) visitor \<Rightarrow> bool" where
  "keeps_shards f \<longleftrightarrow>
     (\<forall>key val m s.
        length (datas (fst (snd (f key val (m, s))))) = length (datas m)
      \<and> seed (fst (snd (f key val (m, s)))) = seed m)"

text \<open>
  \<^verbatim>\<open>Prune\<close>: the inner loop walks the live map of shard \<open>i\<close> and deletes the entry it
  stands on, which does not disturb the walk; the callback's error ends the inner function
  and then \<^verbatim>\<open>Prune\<close>. The loop state is the map, the two counters and the callback's state.
\<close>

type_synonym ('v, 'e, 's) prune_fn = "string \<Rightarrow> 'v \<Rightarrow> 's \<Rightarrow> (bool \<times> 'e option) \<times> 's"

fun Prune_entries ::
  "('v, 'e, 's) prune_fn \<Rightarrow> nat \<Rightarrow> (string \<times> 'v) list \<Rightarrow> 'v hmap \<times> nat \<times> nat \<times> 's
     \<Rightarrow> 'e option \<times> ('v hmap \<times> nat \<times> nat \<times> 's)" where
  "Prune_entries f i [] st = (None, st)"
| "Prune_entries f i ((key, val) # es) (m, delNum, nowNum, s) =
     (case f key val s of
        ((ok, Some err), s') \<Rightarrow> (Some err, (m, delNum, nowNum, s'))
      | ((ok, None), s') \<Rightarrow>
          if ok
          then Prune_entries f i es
                 (m\<lparr>datas := (datas m)[i := (datas m ! i)(key := None)]\<rparr>, delNum + 1, nowNum, s')
          else Prune_entries f i es (m, delNum, nowNum + 1, s'))"

fun Prune_shards ::
  "'v iter_order \<Rightarrow> ('v, 'e, 's) prune_fn \<Rightarrow> nat list \<Rightarrow> 'v hmap \<times> nat \<times> nat \<times> 's
     \<Rightarrow> (nat \<times> nat \<times> 'e option) \<times> 'v hmap \<times> 's" where
  "Prune_shards ord f [] (m, delNum, nowNum, s) = ((delNum, nowNum, None), m, s)"
| "Prune_shards ord f (i # is) (m, delNum, nowNum, s) =
     (case Prune_entries f i (ord i (datas m ! i)) (m, delNum, nowNum, s) of
        (Some err, (m', delNum', nowNum', s')) \<Rightarrow> ((delNum', nowNum', Some err), m', s')
      | (None, st') \<Rightarrow> Prune_shards ord f is st')"

definition Prune ::
  "'v iter_order \<Rightarrow> ('v, 'e, 's) prune_fn \<Rightarrow> 'v hmap \<Rightarrow> 's
     \<Rightarrow> (nat \<times> nat \<times> 'e option) \<times> 'v hmap \<times> 's" where
  "Prune ord f m s = Prune_shards ord f [0..<length (datas m)] (m, 0, 0, s)"

subsection \<open>Invariants of a map built by \<open>New\<close>\<close>

text \<open>
  The number of shards is one of \<open>2 ^ 0, \<dots>, 2 ^ 16\<close>, and every key sits in the shard
  that \<open>getIndex\<close> gives it. \<open>New\<close> establishes both and every operation keeps them
  (section \<open>The invariants along the life of a map\<close>).
\<close>

definition shards_ok :: "'v hmap \<Rightarrow> bool" where
  "shards_ok m \<longleftrightarrow> length (datas m) \<in> set (map (\<lambda>k. 2 ^ k) [0..<17])"

definition keys_placed :: "'v hmap \<Rightarrow> bool" where
  "keys_placed m \<longleftrightarrow>
     (\<forall>i<length (datas m). \<forall>key\<in>dom (datas m ! i). getIndex m key = int i)"

text \<open>
  \<open>entry_of m key\<close> is what the shard of \<open>key\<close> holds for \<open>key\<close>: the map seen as one
  partial function from keys to values.
\<close>

definition entry_of :: "'v hmap \<Rightarrow> string \<Rightarrow> 'v option" where
  "entry_of m key = (datas m ! nat (getIndex m key)) key"

subsection \<open>Observing the calls of a callback\<close>

text \<open>
  \<open>all_entries ord m\<close> is the sequence in which a walk over all shards meets the entries.
  \<open>logged_prune_fn\<close> wraps the callback of \<^verbatim>\<open>Prune\<close> so that it appends every call it
  receives, with its answer, to a list kept beside its own state.
\<close>

definition all_entries :: "'v iter_order \<Rightarrow> 'v hmap \<Rightarrow> (string \<times> 'v) list" where
  "all_entries ord m = concat (map (\<lambda>i. ord i (datas m ! i)) [0..<length (datas m)])"

definition logged_prune_fn ::
  "('v, 'e, 's) prune_fn
     \<Rightarrow> ('v, 'e, 's \<times> ((string \<times> 'v) \<times> bool \<times> 'e option) list) prune_fn" where
  "logged_prune_fn f key val = (\<lambda>(s, log).
     case f key val s of (r, s') \<Rightarrow> (r, (s', log @ [((key, val), r)])))"

text \<open>
  A call of the visitor of \<^verbatim>\<open>Range\<close> is recorded with the pair it was given, the map it
  found, its answer and the map it left. \<open>logged_visitor\<close> wraps a visitor so that it
  appends every call it receives to a list kept beside its own state.
\<close>

record 'v call =
  c_key :: string
  c_val :: 'v
  c_before :: "'v hmap"
  c_answer :: bool
  c_after :: "'v hmap"

definition logged_visitor :: "('v, 's) visitor \<Rightarrow> ('v, 's \<times> 'v call list) visitor" where
  "logged_visitor f key val = (\<lambda>(m, s, log).
     case f key val (m, s) of
       (b, m', s') \<Rightarrow>
         (b, m', s', log @ [\<lparr>c_key = key, c_val = val, c_before = m, c_answer = b,
                             c_after = m'\<rparr>]))"

text \<open>
  \<open>visited calls\<close> are the pairs of a list of calls. \<open>map_after m calls\<close> is the map as it
  stands after the calls, \<open>m\<close> being the map before them. \<open>chained m calls\<close> holds when the
  first call found the map \<open>m\<close> and every later call found the map that the call before it
  left: nothing but the calls changed the map. For a list of lists of calls, one list per
  shard, \<open>map_at m segs i\<close> is the map as it stands after the calls of the first \<open>i\<close> lists.
\<close>

definition visited :: "'v call list \<Rightarrow> (string \<times> 'v) list" where
  "visited calls = map (\<lambda>c. (c_key c, c_val c)) calls"

definition map_after :: "'v hmap \<Rightarrow> 'v call list \<Rightarrow> 'v hmap" where
  "map_after m calls = (if calls = [] then m else c_after (last calls))"

fun chained :: "'v hmap \<Rightarrow> 'v call list \<Rightarrow> bool" where
  "chained m [] = True"
| "chained m (c # cs) = (c_before c = m \<and> chained (c_after c) cs)"

definition map_at :: "'v hmap \<Rightarrow> 'v call list list \<Rightarrow> nat \<Rightarrow> 'v hmap" where
  "map_at m segs i = map_after m (concat (take i segs))"

text \<open>
  \<open>snapshot m segs i\<close> is the copy \<^verbatim>\<open>tmpMaps\<close> that \<^verbatim>\<open>Range\<close> takes of shard \<open>i\<close>: shard
  \<open>i\<close> of the map as it stands when the loop reaches it, after the calls for the shards
  before it.
\<close>

definition snapshot :: "'v hmap \<Rightarrow> 'v call list list \<Rightarrow> nat \<Rightarrow> 'v shard" where
  "snapshot m segs i = datas (map_at m segs i) ! i"

text \<open>
  \<open>walk_at ord is m segs k\<close> is the walk over the copy that the \<open>k\<close>-th round of a loop over
  the shard indices \<open>is\<close> takes: the copy of shard \<open>is ! k\<close> of the map as it stands after the
  calls of the earlier rounds.
\<close>

definition walk_at ::
  "'v iter_order \<Rightarrow> nat list \<Rightarrow> 'v hmap \<Rightarrow> 'v call list list \<Rightarrow> nat \<Rightarrow> (string \<times> 'v) list" where
  "walk_at ord is m segs k = ord (is ! k) (datas (map_at m segs k) ! (is ! k))"

text \<open>
  \<open>prune_run f es s\<close> runs the callback of \<^verbatim>\<open>Prune\<close> over a list of entries without a
  map: it returns the error that stopped it, if any, the keys it was told to delete, the
  number of entries it was told to keep, and the callback's state.
\<close>

fun prune_run ::
  "('v, 'e, 's) prune_fn \<Rightarrow> (string \<times> 'v) list \<Rightarrow> 's \<Rightarrow> 'e option \<times> string list \<times> nat \<times> 's" where
  "prune_run f [] s = (None, [], 0, s)"
| "prune_run f ((key, val) # es) s =
     (case f key val s of
        ((ok, Some err), s') \<Rightarrow> (Some err, [], 0, s')
      | ((ok, None), s') \<Rightarrow>
          (case prune_run f es s' of
             (err, ds, n, s'') \<Rightarrow> if ok then (err, key # ds, n, s'') else (err, ds, Suc n, s'')))"

text \<open>A predicate without state and without errors, as a callback of \<^verbatim>\<open>Prune\<close>.\<close>

definition pure_pred :: "(string \<Rightarrow> 'v \<Rightarrow> bool) \<Rightarrow> ('v, 'e, 's) prune_fn" where
  "pure_pred p key val s = ((p key val, None), s)"

text \<open>A keyed hash for the worked examples: the code of the key's first byte.\<close>

definition sample_hash :: "string \<Rightarrow> 64 word" where
  "sample_hash key = (case key of [] \<Rightarrow> 0 | c # cs \<Rightarrow> of_char c)"

text \<open>
  A callback for the worked example of \<open>DeleteIf\<close>: it accepts values above five and
  counts its calls in its state.
\<close>

definition over_five :: "int \<Rightarrow> nat \<Rightarrow> bool \<times> nat" where
  "over_five v calls = (5 < v, Suc calls)"

text \<open>
  The map of the worked example for \<open>Range\<close> and \<open>Prune\<close>: two shards holding
  \<open>a:1\<close>, \<open>b:5\<close>, \<open>c:10\<close> and \<open>d:15\<close> under \<open>sample_hash\<close>. \<open>sample_order\<close> is an
  iteration order for maps over these four keys, and \<open>stop_at_ten\<close> a callback of
  \<open>Prune\<close> that deletes values below ten and fails on the value ten.
\<close>

definition sample_order :: "int iter_order" where
  "sample_order i d =
     List.map_filter (\<lambda>key. map_option (Pair key) (d key)) [''d'', ''c'', ''b'', ''a'']"

definition sample_map :: "int hmap" where
  "sample_map =
     \<lparr>datas = [ [''b'' \<mapsto> 5, ''d'' \<mapsto> 15], [''a'' \<mapsto> 1, ''c'' \<mapsto> 10]], seed = sample_hash\<rparr>"

definition stop_at_ten :: "(int, string, unit) prune_fn" where
  "stop_at_ten key v s = ((v < 10, if v = 10 then Some ''stop'' else None), s)"

text \<open>
  Callbacks for the worked examples of \<open>Range\<close>. \<open>visit_upto\<close> does not touch the map: it
  counts its calls in its state and answers \<open>False\<close> once the count reaches the limit.
  \<open>delete_at trigger victim\<close> counts its calls, and when it is given the key \<open>trigger\<close> it
  deletes the key \<open>victim\<close> from the map with \<open>Delete\<close>.
\<close>

definition visit_upto :: "nat \<Rightarrow> string \<Rightarrow> int \<Rightarrow> nat \<Rightarrow> bool \<times> nat" where
  "visit_upto limit key v count = (Suc count < limit, Suc count)"

definition delete_at :: "string \<Rightarrow> string \<Rightarrow> ('v, nat) visitor" where
  "delete_at trigger victim key val = (\<lambda>(m, count).
     if key = trigger
     then (case Delete m victim of
             Inr (b, m') \<Rightarrow> (True, m', Suc count)
           | Inl p \<Rightarrow> (True, m, Suc count))
     else (True, m, Suc count))"

section \<open>Shard-count arithmetic\<close>

subsection \<open>Rounding up to a power of two\<close>

lemma sdrop_eq_drop:
  fixes x :: "64 word"
  assumes "\<not> bit x 63"
  shows "signed_drop_bit k x = drop_bit k x"
proof (rule bit_eqI)
  fix j
  assume "possible_bit TYPE(64 word) j"
  then have j: "j < 64" by simp
  show "bit (signed_drop_bit k x) j = bit (drop_bit k x) j"
    using assms j by (auto simp: bit_signed_drop_bit_iff bit_drop_bit_eq dest: bit_imp_le_length)
qed

lemma high_bits_clear:
  fixes n :: "64 word"
  assumes "unat n < 2 ^ k" "k \<le> i"
  shows "\<not> bit n i"
proof -
  have "(2::nat) ^ k \<le> 2 ^ i"
    using assms(2) by (rule power_increasing) simp
  with assms(1) have "unat n < 2 ^ i" by linarith
  then have "unat n div 2 ^ i = 0" by simp
  then have "\<not> bit (unat n) i" by (simp add: bit_iff_odd)
  then show ?thesis by (simp add: bit_unsigned_iff)
qed

lemma top_bit_set:
  fixes n :: "64 word"
  assumes "2 ^ k \<le> unat n" "unat n < 2 ^ Suc k"
  shows "bit n k"
proof -
  have "unat n div 2 ^ k = 1"
    using assms by (intro Euclidean_Rings.div_nat_eqI) simp_all
  then have "bit (unat n) k" by (simp add: bit_iff_odd)
  then show ?thesis by (simp add: bit_unsigned_iff)
qed

lemma bit_length_ex:
  fixes x :: nat
  assumes "0 < x" "x < 2 ^ 16"
  shows "\<exists>k<16. 2 ^ k \<le> x \<and> x < 2 ^ Suc k"
proof -
  define L where "L = (LEAST l. x < 2 ^ l)"
  have lt: "x < 2 ^ L"
    unfolding L_def using assms(2) by (rule LeastI)
  have "L \<le> 16"
    unfolding L_def using assms(2) by (rule Least_le)
  have "L \<noteq> 0" using lt assms(1) by (cases L) auto
  then obtain k where k: "L = Suc k" by (cases L) auto
  have "\<not> x < 2 ^ k"
    using not_less_Least [of k "\<lambda>l. x < 2 ^ l"] k by (simp add: L_def)
  with lt k \<open>L \<le> 16\<close> show ?thesis by (intro exI [of _ k]) simp
qed

lemma smear_step:
  fixes n x :: "64 word"
  assumes sm: "\<And>j. bit x j \<longleftrightarrow> (\<exists>e\<le>d. bit n (j + e))" and n: "unat n < 2 ^ 16"
    and sh: "sh = Suc d" "d' = 2 * d + 1"
  shows "bit (x OR signed_drop_bit sh x) j \<longleftrightarrow> (\<exists>e\<le>d'. bit n (j + e))"
proof -
  have "\<not> bit x 63"
    using sm [of 63] high_bits_clear [OF n] by simp
  then have eq: "signed_drop_bit (Suc d) x = drop_bit (Suc d) x"
    by (rule sdrop_eq_drop)
  have "bit (x OR drop_bit (Suc d) x) j \<longleftrightarrow> bit x j \<or> bit x (j + Suc d)"
    by (simp add: bit_or_iff bit_drop_bit_eq add.commute)
  also have "\<dots> \<longleftrightarrow> (\<exists>e\<le>d. bit n (j + e)) \<or> (\<exists>e\<le>d. bit n (j + Suc d + e))"
    by (simp only: sm)
  also have "\<dots> \<longleftrightarrow> (\<exists>e\<le>2 * d + 1. bit n (j + e))"
  proof
    assume "(\<exists>e\<le>d. bit n (j + e)) \<or> (\<exists>e\<le>d. bit n (j + Suc d + e))"
    then show "\<exists>e\<le>2 * d + 1. bit n (j + e)"
    proof
      assume "\<exists>e\<le>d. bit n (j + e)"
      then obtain e where "e \<le> d" "bit n (j + e)" by blast
      then show ?thesis by (intro exI [of _ e]) simp
    next
      assume "\<exists>e\<le>d. bit n (j + Suc d + e)"
      then obtain e where "e \<le> d" "bit n (j + Suc d + e)" by blast
      then show ?thesis by (intro exI [of _ "Suc d + e"]) (simp add: ac_simps)
    qed
  next
    assume "\<exists>e\<le>2 * d + 1. bit n (j + e)"
    then obtain e where e: "e \<le> 2 * d + 1" "bit n (j + e)" by blast
    show "(\<exists>e\<le>d. bit n (j + e)) \<or> (\<exists>e\<le>d. bit n (j + Suc d + e))"
    proof (cases "e \<le> d")
      case True
      with e show ?thesis by blast
    next
      case False
      then have "e - Suc d \<le> d" "j + Suc d + (e - Suc d) = j + e"
        using e by simp_all
      with e(2) show ?thesis by metis
    qed
  qed
  finally show ?thesis by (simp only: eq sh)
qed

lemma trueShards_smear:
  fixes c :: "64 word"
  assumes c: "\<not> c <s 1" "\<not> push_bit 16 1 <s c"
    and lo: "2 ^ k \<le> unat (c - 1)" and hi: "unat (c - 1) < 2 ^ Suc k" and k: "k < 16"
  shows "trueShards c = 2 ^ Suc k"
proof -
  define n where "n = c - 1"
  define x1 where "x1 = n OR signed_drop_bit 1 n"
  define x2 where "x2 = x1 OR signed_drop_bit 2 x1"
  define x3 where "x3 = x2 OR signed_drop_bit 4 x2"
  define x4 where "x4 = x3 OR signed_drop_bit 8 x3"
  define x5 where "x5 = x4 OR signed_drop_bit 16 x4"
  have n: "unat n < 2 ^ 16"
  proof -
    have "(2::nat) ^ Suc k \<le> 2 ^ 16"
      using k by (intro power_increasing) simp_all
    with hi show ?thesis by (simp add: n_def)
  qed
  have b1: "bit x1 j \<longleftrightarrow> (\<exists>e\<le>1. bit n (j + e))" for j
    unfolding x1_def by (rule smear_step [where d = 0, OF _ n]) simp_all
  have b2: "bit x2 j \<longleftrightarrow> (\<exists>e\<le>3. bit n (j + e))" for j
    unfolding x2_def by (rule smear_step [where d = 1, OF b1 n]) simp_all
  have b3: "bit x3 j \<longleftrightarrow> (\<exists>e\<le>7. bit n (j + e))" for j
    unfolding x3_def by (rule smear_step [where d = 3, OF b2 n]) simp_all
  have b4: "bit x4 j \<longleftrightarrow> (\<exists>e\<le>15. bit n (j + e))" for j
    unfolding x4_def by (rule smear_step [where d = 7, OF b3 n]) simp_all
  have b5: "bit x5 j \<longleftrightarrow> (\<exists>e\<le>31. bit n (j + e))" for j
    unfolding x5_def by (rule smear_step [where d = 15, OF b4 n]) simp_all
  have "x5 = mask (Suc k)"
  proof (rule bit_eqI)
    fix j
    assume "possible_bit TYPE(64 word) j"
    then have j: "j < 64" by simp
    show "bit x5 j = bit (mask (Suc k) :: 64 word) j"
    proof (cases "j \<le> k")
      case True
      have "bit n (j + (k - j))"
        using True top_bit_set [of k n] lo hi by (simp add: n_def)
      moreover have "k - j \<le> 31" using k by simp
      ultimately have "\<exists>e\<le>31. bit n (j + e)" by blast
      then show ?thesis using True j by (simp add: b5 bit_mask_iff)
    next
      case False
      then have "\<not> bit n (j + e)" for e
        using high_bits_clear [of n "Suc k" "j + e"] hi by (simp add: n_def)
      then show ?thesis using False by (simp add: b5 bit_mask_iff)
    qed
  qed
  moreover have "trueShards c = x5 + 1"
    using c by (simp add: trueShards_def Let_def x5_def x4_def x3_def x2_def x1_def n_def)
  ultimately show ?thesis
    by (simp add: mask_eq_exp_minus_1)
qed

lemma trueShards_one:
  "trueShards 1 = 1"
  by (simp add: trueShards_def word_sless_alt)

lemma uint_eq_sint:
  fixes c :: "64 word"
  assumes "0 \<le> sint c"
  shows "uint c = sint c"
proof -
  have nb: "\<not> bit c 63"
    using assms bit_last_iff [of c] by simp
  then have "\<not> bit (uint c) 63" by (simp add: bit_uint_iff)
  then have "sint c = take_bit 63 (uint c)"
    by (simp add: sint_uint signed_take_bit_eq_if_positive)
  also have "\<dots> = uint c"
  proof (rule bit_eqI)
    fix j
    show "bit (take_bit 63 (uint c)) j = bit (uint c) j"
      using nb by (cases "j = 63") (auto simp: bit_take_bit_iff bit_uint_iff)
  qed
  finally show ?thesis by simp
qed

lemma unat_pred:
  fixes c :: "64 word"
  assumes "1 \<le> sint c"
  shows "unat (c - 1) = nat (sint c - 1)"
proof -
  have su: "sint c = uint c" using assms by (simp add: uint_eq_sint)
  with assms have "uint (1 :: 64 word) \<le> uint c" by simp
  then have "uint (c - 1) = uint c - uint (1 :: 64 word)"
    by (simp only: uint_sub_lem)
  then have "uint (c - 1) = sint c - 1" using su by simp
  then show ?thesis by (simp add: unat_eq_nat_uint)
qed

lemma trueShards_range:
  fixes c :: "64 word"
  assumes "1 \<le> sint c" "sint c \<le> 65536"
  shows "\<exists>k\<le>16. trueShards c = 2 ^ k \<and> sint c \<le> 2 ^ k \<and> (\<forall>j. sint c \<le> 2 ^ j \<longrightarrow> k \<le> j)"
proof (cases "unat (c - 1) = 0")
  case True
  then have "sint c = 1" using unat_pred [OF assms(1)] assms(1) by simp
  then have "c = 1" using word_eq_iff_signed by fastforce
  then show ?thesis by (intro exI [of _ 0]) (simp add: trueShards_one)
next
  case False
  have un: "unat (c - 1) = nat (sint c - 1)"
    using assms(1) by (rule unat_pred)
  have "unat (c - 1) < 2 ^ 16"
    using assms by (simp add: un)
  with False obtain k where k: "k < 16" "2 ^ k \<le> unat (c - 1)" "unat (c - 1) < 2 ^ Suc k"
    using bit_length_ex [of "unat (c - 1)"] by auto
  have c: "\<not> c <s 1" "\<not> push_bit 16 1 <s c"
    using assms by (simp_all add: word_sless_alt)
  have eq: "trueShards c = 2 ^ Suc k"
    using c k(2,3,1) by (rule trueShards_smear)
  have le: "sint c \<le> 2 ^ Suc k"
  proof -
    have "int (nat (sint c - 1)) < int (2 ^ Suc k)"
      using k(3) unfolding un by (simp only: of_nat_less_iff)
    then show ?thesis using assms(1) by simp
  qed
  have least: "Suc k \<le> j" if "sint c \<le> 2 ^ j" for j
  proof -
    have "sint c - 1 < int (2 ^ j)" using that by simp
    then have "nat (sint c - 1) < 2 ^ j" using assms(1) by linarith
    with k(2) have "(2::nat) ^ k < 2 ^ j" unfolding un by linarith
    then have "k < j" by simp
    then show ?thesis by simp
  qed
  show ?thesis
    using eq le least k(1) by (intro exI [of _ "Suc k"]) simp
qed

lemma sint_small:
  fixes w :: "64 word"
  assumes "uint w < 2 ^ 63"
  shows "sint w = uint w"
proof -
  have "- (2 ^ 63) \<le> uint w" by (rule order_trans [of _ 0]) simp_all
  then have "signed_take_bit 63 (uint w) = uint w"
    using assms by (rule signed_take_bit_int_eq_self)
  then show ?thesis by (simp add: sint_uint)
qed

lemma uint_pow2:
  assumes "k < 64"
  shows "uint (2 ^ k :: 64 word) = 2 ^ k"
proof -
  have "(2 ^ k :: 64 word) \<noteq> 0" using assms by (simp add: exp_eq_zero_iff)
  then have "(0 :: 64 word) < 2 ^ k" by (simp add: word_greater_zero_iff)
  then show ?thesis by (rule uint_2p)
qed

lemma sint_pow2:
  assumes "k \<le> 16"
  shows "sint (2 ^ k :: 64 word) = 2 ^ k"
proof -
  have u: "uint (2 ^ k :: 64 word) = 2 ^ k"
    using assms by (simp add: uint_pow2)
  have "(2::int) ^ k \<le> 2 ^ 16"
    using assms by (intro power_increasing) simp_all
  then have "uint (2 ^ k :: 64 word) < 2 ^ 63" by (simp add: u)
  then show ?thesis using u by (simp add: sint_small)
qed

lemma trueShards_pow2:
  "\<exists>k\<le>16. trueShards c = 2 ^ k"
proof -
  consider "sint c < 1" | "65536 < sint c" | "1 \<le> sint c" "sint c \<le> 65536"
    by linarith
  then show ?thesis
  proof cases
    case 1
    then have "trueShards c = 2 ^ 0"
      by (simp add: trueShards_def word_sless_alt)
    then show ?thesis by blast
  next
    case 2
    then have "trueShards c = 2 ^ 16"
      by (simp add: trueShards_def word_sless_alt)
    then show ?thesis by blast
  next
    case 3
    then show ?thesis using trueShards_range [of c] by blast
  qed
qed

lemma shards_ok_iff:
  "shards_ok m \<longleftrightarrow> (\<exists>k\<le>16. length (datas m) = 2 ^ k)"
proof -
  have "set [0..<17] = {k. k \<le> (16::nat)}" by auto
  then show ?thesis by (auto simp: shards_ok_def image_iff)
qed

lemma New_length:
  "\<exists>k\<le>16. length (datas (New sd inShardCount)) = 2 ^ k"
proof (cases inShardCount)
  case None
  have "length (datas (New sd None)) = 2 ^ 6"
    by (simp add: New_def defaultShardCount_def)
  with None show ?thesis by (intro exI [of _ 6]) simp
next
  case (Some c)
  obtain k where k: "k \<le> 16" "trueShards c = 2 ^ k"
    using trueShards_pow2 [of c] by blast
  have "length (datas (New sd (Some c))) = 2 ^ k"
    using k by (simp add: New_def sint_pow2 nat_power_eq)
  with Some k(1) show ?thesis by blast
qed

lemma shards_ok_New:
  "shards_ok (New sd inShardCount)"
  by (simp add: shards_ok_iff New_length)

lemma getIndex_in_range:
  assumes "shards_ok m"
  shows "0 \<le> getIndex m key \<and> getIndex m key < int (length (datas m))"
proof -
  obtain k where k: "k \<le> 16" "length (datas m) = 2 ^ k"
    using assms by (auto simp: shards_ok_iff)
  define w where "w = seed m key AND (mask k :: 64 word)"
  have idx: "getIndex m key = sint w"
    by (simp add: getIndex_def k(2) w_def mask_eq_exp_minus_1)
  have lt: "uint w < 2 ^ k"
    unfolding w_def by (rule and_mask_lt_2p)
  have "(2::int) ^ k \<le> 2 ^ 16"
    using k(1) by (intro power_increasing) simp_all
  with lt have "uint w < 2 ^ 63" by simp
  then have "sint w = uint w" by (rule sint_small)
  with lt show ?thesis by (simp add: idx k(2))
qed

lemma least_pow2_low:
  assumes "x \<le> (1::int)"
  shows "(LEAST p. (\<exists>k. p = 2 ^ k) \<and> x \<le> int p) = (1::nat)"
proof (rule Least_equality)
  show "(\<exists>k. (1::nat) = 2 ^ k) \<and> x \<le> int 1"
    using assms by (auto intro: exI [of _ 0])
next
  fix y :: nat
  assume "(\<exists>k. y = 2 ^ k) \<and> x \<le> int y"
  then show "1 \<le> y" by auto
qed

lemma least_pow2_high:
  assumes "65536 < x"
  shows "65536 < (LEAST p. (\<exists>k. p = 2 ^ k) \<and> x \<le> int p)"
proof -
  have "nat x < 2 ^ nat x" by (rule less_exp)
  then have "x \<le> int (2 ^ nat x)" by linarith
  then have ex: "(\<exists>k. (2::nat) ^ nat x = 2 ^ k) \<and> x \<le> int (2 ^ nat x)"
    by blast
  have "x \<le> int (LEAST p. (\<exists>k. p = 2 ^ k) \<and> x \<le> int p)"
    using LeastI [of "\<lambda>p. (\<exists>k. p = 2 ^ k) \<and> x \<le> int p", OF ex] by simp
  with assms show ?thesis by simp
qed

lemma least_pow2_mid:
  assumes "x \<le> 2 ^ k" "\<And>j. x \<le> 2 ^ j \<Longrightarrow> k \<le> j"
  shows "(LEAST p. (\<exists>k. p = 2 ^ k) \<and> x \<le> int p) = (2::nat) ^ k"
proof (rule Least_equality)
  show "(\<exists>j. (2::nat) ^ k = 2 ^ j) \<and> x \<le> int (2 ^ k)"
    using assms(1) by auto
next
  fix y :: nat
  assume "(\<exists>j. y = 2 ^ j) \<and> x \<le> int y"
  then obtain j where j: "y = 2 ^ j" "x \<le> 2 ^ j" by auto
  then have "k \<le> j" using assms(2) by simp
  then show "2 ^ k \<le> y" using j(1) by simp
qed



text \<open>
  Claim C3. For every requested shard count \<open>n\<close>, \<open>New\<close> called with \<open>n\<close> builds a map
  whose \<open>ShardCount\<close> is the smallest power of two greater than or equal to \<open>n\<close>,
  clamped to the range from 1 to 65536. A request of 100 gives 128, a request below 1 gives
  1, and a request above 65536 gives 65536.
\<close>

theorem New_ShardCount:
  "ShardCount (New sd (Some n)) =
     max 1 (min 65536 (LEAST p. (\<exists>k. p = 2 ^ k) \<and> sint n \<le> int p))
   \<and> ShardCount (New sd (Some 100)) = 128
   \<and> (sint n < 1 \<longrightarrow> ShardCount (New sd (Some n)) = 1)
   \<and> (65536 < sint n \<longrightarrow> ShardCount (New sd (Some n)) = 65536)"
proof -
  let ?L = "LEAST p. (\<exists>k. p = 2 ^ k) \<and> sint n \<le> int p"
  have lo: "ShardCount (New sd (Some c)) = 1" if "sint c < 1" for c :: "64 word"
    using that by (simp add: ShardCount_def New_def trueShards_def word_sless_alt)
  have hi: "ShardCount (New sd (Some c)) = 65536" if "65536 < sint c" for c :: "64 word"
    using that by (simp add: ShardCount_def New_def trueShards_def word_sless_alt)
  have "ShardCount (New sd (Some n)) = max 1 (min 65536 ?L)"
  proof -
    consider "sint n < 1" | "65536 < sint n" | "1 \<le> sint n" "sint n \<le> 65536"
      by linarith
    then show ?thesis
    proof cases
      case 1
      then have "?L = 1" by (intro least_pow2_low) simp
      with 1 show ?thesis by (simp add: lo)
    next
      case 2
      then have "65536 < ?L" by (rule least_pow2_high)
      with 2 show ?thesis by (simp add: hi)
    next
      case 3
      then obtain k where k: "k \<le> 16" "trueShards n = 2 ^ k" "sint n \<le> 2 ^ k"
        "\<And>j. sint n \<le> 2 ^ j \<Longrightarrow> k \<le> j"
        using trueShards_range [of n] by blast
      have L: "?L = 2 ^ k" using k(3,4) by (rule least_pow2_mid)
      have "(2::nat) ^ k \<le> 2 ^ 16"
        using k(1) by (intro power_increasing) simp_all
      then have "max 1 (min 65536 ((2::nat) ^ k)) = 2 ^ k" by simp
      moreover have "ShardCount (New sd (Some n)) = 2 ^ k"
        using k(1,2) by (simp add: ShardCount_def New_def sint_pow2 nat_power_eq)
      ultimately show ?thesis by (simp only: L)
    qed
  qed
  moreover have "ShardCount (New sd (Some 100)) = 128"
    by (simp add: ShardCount_def New_def trueShards_def word_sless_alt)
  ultimately show ?thesis using lo hi by blast
qed

theorem New_ShardCount_witness:
  "sint (- 5 :: 64 word) < 1 \<and> 65536 < sint (70000 :: 64 word)
   \<and> ShardCount (New (\<lambda>key. 0) (Some (- 5)) :: int hmap) = 1
   \<and> ShardCount (New (\<lambda>key. 0) (Some 70000) :: int hmap) = 65536"
proof -
  have a: "sint (- 5 :: 64 word) < 1" and b: "65536 < sint (70000 :: 64 word)"
    by simp_all
  have "ShardCount (New (\<lambda>key. 0) (Some (- 5)) :: int hmap) = 1"
    using New_ShardCount [of "\<lambda>key. 0" "- 5"] a by blast
  moreover have "ShardCount (New (\<lambda>key. 0) (Some 70000) :: int hmap) = 65536"
    using New_ShardCount [of "\<lambda>key. 0" 70000] b by blast
  ultimately show ?thesis using a b by blast
qed

section \<open>Point operations on a map with a valid shard count\<close>

lemma shard_at_getIndex:
  assumes "shards_ok m"
  shows "shard_at m (getIndex m key) = Inr (datas m ! nat (getIndex m key))"
  using getIndex_in_range [OF assms, of key] by (simp add: shard_at_def)

lemma getIndex_set_shard [simp]:
  "getIndex (set_shard m i d) key = getIndex m key"
  by (simp add: getIndex_def set_shard_def)

lemma length_set_shard [simp]:
  "length (datas (set_shard m i d)) = length (datas m)"
  by (simp add: set_shard_def)

lemma seed_set_shard [simp]:
  "seed (set_shard m i d) = seed m"
  by (simp add: set_shard_def)

lemma datas_set_shard:
  "datas (set_shard m i d) = (datas m)[nat i := d]"
  by (simp add: set_shard_def)

lemma shards_ok_set_shard [simp]:
  "shards_ok (set_shard m i d) = shards_ok m"
  by (simp add: shards_ok_def)

lemma entry_of_set_shard:
  assumes "shards_ok m"
  shows "entry_of (set_shard m (getIndex m key) ((datas m ! nat (getIndex m key))(key := x))) key' =
           (if key' = key then x else entry_of m key')"
proof -
  have "0 \<le> getIndex m key" "0 \<le> getIndex m key'"
    "nat (getIndex m key) < length (datas m)" "nat (getIndex m key') < length (datas m)"
    using getIndex_in_range [OF assms, of key] getIndex_in_range [OF assms, of key'] by auto
  then show ?thesis by (auto simp: entry_of_def datas_set_shard nth_list_update)
qed

lemma Get_eq:
  assumes "shards_ok m"
  shows "Get m key = Inr ((case entry_of m key of Some v \<Rightarrow> (v, True) | None \<Rightarrow> (0, False)), m)"
  by (simp add: Get_def Let_def entry_of_def shard_at_getIndex [OF assms] split: option.split)

lemma Get_present_iff:
  assumes "shards_ok m"
  shows "Get m key = Inr ((v, True), m) \<longleftrightarrow> entry_of m key = Some v"
  by (simp add: Get_eq [OF assms] split: option.split)

lemma Get_absent_iff:
  assumes "shards_ok m"
  shows "Get m key = Inr ((z, False), m) \<longleftrightarrow> entry_of m key = None \<and> z = 0"
  by (auto simp add: Get_eq [OF assms] split: option.split)

lemma Set_eq:
  assumes "shards_ok m"
  shows "Set m key val =
           Inr (set_shard m (getIndex m key) ((datas m ! nat (getIndex m key))(key \<mapsto> val)))"
  by (simp add: Set_def Let_def shard_at_getIndex [OF assms])

lemma SetWithNotExist_eq:
  assumes "shards_ok m"
  shows "SetWithNotExist m key val =
           (case entry_of m key of
              Some v \<Rightarrow> Inr ((v, False), m)
            | None \<Rightarrow> Inr ((val, True),
                set_shard m (getIndex m key) ((datas m ! nat (getIndex m key))(key \<mapsto> val))))"
  by (simp add: SetWithNotExist_def Let_def entry_of_def shard_at_getIndex [OF assms])

lemma GetWithDefault_eq:
  assumes "shards_ok m"
  shows "GetWithDefault m key dv =
           Inr ((case entry_of m key of Some v \<Rightarrow> (v, True) | None \<Rightarrow> (dv, False)), m)"
  by (simp add: GetWithDefault_def Let_def entry_of_def shard_at_getIndex [OF assms] split: option.split)

lemma Delete_eq:
  assumes "shards_ok m"
  shows "Delete m key =
           (case entry_of m key of
              None \<Rightarrow> Inr (False, m)
            | Some v \<Rightarrow> Inr (True,
                set_shard m (getIndex m key) ((datas m ! nat (getIndex m key))(key := None))))"
  by (simp add: Delete_def Let_def entry_of_def shard_at_getIndex [OF assms])

lemma DeleteIf_eq:
  assumes "shards_ok m"
  shows "DeleteIf m key delIf s =
           (case entry_of m key of
              None \<Rightarrow> Inr (False, m, s)
            | Some v \<Rightarrow>
                (case delIf v s of
                   (False, s') \<Rightarrow> Inr (False, m, s')
                 | (True, s') \<Rightarrow> Inr (True,
                     set_shard m (getIndex m key) ((datas m ! nat (getIndex m key))(key := None)),
                     s')))"
  by (simp add: DeleteIf_def Let_def entry_of_def shard_at_getIndex [OF assms])

text \<open>What each point operation does, told through \<open>entry_of\<close>.\<close>

lemma Set_spec:
  assumes "shards_ok m"
  shows "\<exists>m1. Set m key val = Inr m1 \<and> shards_ok m1
    \<and> (\<forall>k. entry_of m1 k = (if k = key then Some val else entry_of m k))"
proof -
  let ?m1 = "set_shard m (getIndex m key) ((datas m ! nat (getIndex m key))(key \<mapsto> val))"
  have "Set m key val = Inr ?m1"
    using assms by (simp add: Set_eq)
  moreover have "shards_ok ?m1" using assms by simp
  moreover have "\<forall>k. entry_of ?m1 k = (if k = key then Some val else entry_of m k)"
    using assms(1) by (simp add: entry_of_set_shard)
  ultimately show ?thesis by blast
qed

lemma SetWithNotExist_present:
  assumes "shards_ok m" "entry_of m key = Some old"
  shows "SetWithNotExist m key val = Inr ((old, False), m)"
  using assms by (simp add: SetWithNotExist_eq)

lemma SetWithNotExist_absent:
  assumes "shards_ok m" "entry_of m key = None"
  shows "\<exists>m1. SetWithNotExist m key val = Inr ((val, True), m1) \<and> shards_ok m1
    \<and> (\<forall>k. entry_of m1 k = (if k = key then Some val else entry_of m k))"
proof -
  let ?m1 = "set_shard m (getIndex m key) ((datas m ! nat (getIndex m key))(key \<mapsto> val))"
  have "SetWithNotExist m key val = Inr ((val, True), ?m1)"
    using assms by (simp add: SetWithNotExist_eq)
  moreover have "shards_ok ?m1" using assms by simp
  moreover have "\<forall>k. entry_of ?m1 k = (if k = key then Some val else entry_of m k)"
    using assms(1) by (simp add: entry_of_set_shard)
  ultimately show ?thesis by blast
qed

lemma Delete_absent:
  assumes "shards_ok m" "entry_of m key = None"
  shows "Delete m key = Inr (False, m)"
  using assms by (simp add: Delete_eq)

lemma Delete_present:
  assumes "shards_ok m" "entry_of m key = Some v"
  shows "\<exists>m1. Delete m key = Inr (True, m1) \<and> shards_ok m1
    \<and> (\<forall>k. entry_of m1 k = (if k = key then None else entry_of m k))"
proof -
  let ?m1 = "set_shard m (getIndex m key) ((datas m ! nat (getIndex m key))(key := None))"
  have "Delete m key = Inr (True, ?m1)"
    using assms by (simp add: Delete_eq)
  moreover have "shards_ok ?m1" using assms by simp
  moreover have "\<forall>k. entry_of ?m1 k = (if k = key then None else entry_of m k)"
    using assms(1) by (simp add: entry_of_set_shard)
  ultimately show ?thesis by blast
qed

lemma DeleteIf_absent:
  assumes "shards_ok m" "entry_of m key = None"
  shows "DeleteIf m key delIf s = Inr (False, m, s)"
  using assms by (simp add: DeleteIf_eq)

lemma DeleteIf_refused:
  assumes "shards_ok m" "entry_of m key = Some v" "delIf v s = (False, s')"
  shows "DeleteIf m key delIf s = Inr (False, m, s')"
  using assms by (simp add: DeleteIf_eq)

lemma DeleteIf_accepted:
  assumes "shards_ok m" "entry_of m key = Some v" "delIf v s = (True, s')"
  shows "\<exists>m1. DeleteIf m key delIf s = Inr (True, m1, s') \<and> shards_ok m1
    \<and> (\<forall>k. entry_of m1 k = (if k = key then None else entry_of m k))"
proof -
  let ?m1 = "set_shard m (getIndex m key) ((datas m ! nat (getIndex m key))(key := None))"
  have "DeleteIf m key delIf s = Inr (True, ?m1, s')"
    using assms by (simp add: DeleteIf_eq)
  moreover have "shards_ok ?m1" using assms by simp
  moreover have "\<forall>k. entry_of ?m1 k = (if k = key then None else entry_of m k)"
    using assms(1) by (simp add: entry_of_set_shard)
  ultimately show ?thesis by blast
qed

lemma Get_cong:
  assumes "shards_ok m" "shards_ok m1" "entry_of m1 key = entry_of m key" "Get m key = Inr (r, m)"
  shows "Get m1 key = Inr (r, m1)"
  using assms by (simp add: Get_eq)

section \<open>Point operations: the claims\<close>


text \<open>
  Claim C1. On a map with a valid shard count, \<open>Set\<close> of a key and a value succeeds, and
  a \<open>Get\<close> of that key on the resulting map returns the value with \<open>True\<close>. Whatever
  \<open>Get\<close> returns for a key is still returned after \<open>Set\<close>, \<open>SetWithNotExist\<close>,
  \<open>Delete\<close> or \<open>DeleteIf\<close> on a different key, so the answer stands until the key itself
  is changed.
\<close>

theorem Set_then_Get:
  fixes m :: "('v::zero) hmap"
  assumes ok: "shards_ok m"
  shows "(\<exists>m1. Set m key val = Inr m1 \<and> shards_ok m1 \<and> Get m1 key = Inr ((val, True), m1))
    \<and> (key' \<noteq> key \<and> Get m key = Inr (r, m) \<longrightarrow>
          (\<exists>m2. Set m key' val' = Inr m2 \<and> shards_ok m2 \<and> Get m2 key = Inr (r, m2))
        \<and> (\<exists>b m2. SetWithNotExist m key' val' = Inr (b, m2) \<and> shards_ok m2
              \<and> Get m2 key = Inr (r, m2))
        \<and> (\<exists>b m2. Delete m key' = Inr (b, m2) \<and> shards_ok m2 \<and> Get m2 key = Inr (r, m2))
        \<and> (\<exists>b m2 s'. DeleteIf m key' delIf s = Inr (b, m2, s') \<and> shards_ok m2
              \<and> Get m2 key = Inr (r, m2)))"
proof (intro conjI impI)
  obtain m1 where "Set m key val = Inr m1" "shards_ok m1" "entry_of m1 key = Some val"
    using Set_spec [OF ok, of key val] by auto
  then show "\<exists>m1. Set m key val = Inr m1 \<and> shards_ok m1 \<and> Get m1 key = Inr ((val, True), m1)"
    by (auto simp: Get_present_iff)
next
  assume h: "key' \<noteq> key \<and> Get m key = Inr (r, m)"
  then have ne: "key \<noteq> key'" and g: "Get m key = Inr (r, m)" by auto
  show "\<exists>m2. Set m key' val' = Inr m2 \<and> shards_ok m2 \<and> Get m2 key = Inr (r, m2)"
  proof -
    obtain m2 where m2: "Set m key' val' = Inr m2" "shards_ok m2" "entry_of m2 key = entry_of m key"
      using Set_spec [OF ok, of key' val'] ne by auto
    then show ?thesis using Get_cong [OF ok m2(2,3) g] by blast
  qed
  show "\<exists>b m2. SetWithNotExist m key' val' = Inr (b, m2) \<and> shards_ok m2
          \<and> Get m2 key = Inr (r, m2)"
  proof (cases "entry_of m key'")
    case None
    obtain m2 where m2: "SetWithNotExist m key' val' = Inr ((val', True), m2)" "shards_ok m2"
      "entry_of m2 key = entry_of m key"
      using SetWithNotExist_absent [OF ok None, of val'] ne by auto
    then show ?thesis using Get_cong [OF ok m2(2,3) g] by blast
  next
    case (Some old)
    then show ?thesis using SetWithNotExist_present [OF ok Some, of val'] ok g by blast
  qed
  show "\<exists>b m2. Delete m key' = Inr (b, m2) \<and> shards_ok m2 \<and> Get m2 key = Inr (r, m2)"
  proof (cases "entry_of m key'")
    case None
    then show ?thesis using Delete_absent [OF ok None] ok g by blast
  next
    case (Some v)
    obtain m2 where m2: "Delete m key' = Inr (True, m2)" "shards_ok m2"
      "entry_of m2 key = entry_of m key"
      using Delete_present [OF ok Some] ne by auto
    then show ?thesis using Get_cong [OF ok m2(2,3) g] by blast
  qed
  show "\<exists>b m2 s'. DeleteIf m key' delIf s = Inr (b, m2, s') \<and> shards_ok m2
          \<and> Get m2 key = Inr (r, m2)"
  proof (cases "entry_of m key'")
    case None
    then show ?thesis using DeleteIf_absent [OF ok None, of delIf s] ok g by blast
  next
    case (Some v)
    obtain b s' where d: "delIf v s = (b, s')" by (cases "delIf v s")
    show ?thesis
    proof (cases b)
      case False
      with d have "delIf v s = (False, s')" by simp
      then have "DeleteIf m key' delIf s = Inr (False, m, s')"
        by (rule DeleteIf_refused [where delIf = delIf and s = s, OF ok Some])
      then show ?thesis using ok g by blast
    next
      case True
      from d True have d': "delIf v s = (True, s')" by simp
      obtain m2 where m2: "DeleteIf m key' delIf s = Inr (True, m2, s')" "shards_ok m2"
        "entry_of m2 key = entry_of m key"
        using DeleteIf_accepted [where delIf = delIf and s = s, OF ok Some d'] ne by auto
      then show ?thesis using Get_cong [OF ok m2(2,3) g] by blast
    qed
  qed
qed


theorem Set_then_Get_witness:
  "\<exists>m1 m2. Set (New sample_hash (Some 4)) ''a'' (7::int) = Inr m1
     \<and> Get m1 ''a'' = Inr ((7, True), m1)
     \<and> ''b'' \<noteq> ''a'' \<and> Set m1 ''b'' 9 = Inr m2 \<and> Get m2 ''a'' = Inr ((7, True), m2)"
proof -
  let ?m0 = "New sample_hash (Some 4) :: int hmap"
  have ok0: "shards_ok ?m0" by (rule shards_ok_New)
  obtain m1 where m1: "Set ?m0 ''a'' 7 = Inr m1" "shards_ok m1" "Get m1 ''a'' = Inr ((7, True), m1)"
    using Set_then_Get [OF ok0, where key = "''a''" and val = 7 and key' = "''b''" and val' = 9
        and r = "(7, True)" and delIf = "\<lambda>v (s::unit). (False, s)" and s = "()"]
    by blast
  have ne: "''b'' \<noteq> ''a''" by simp
  obtain m2 where "Set m1 ''b'' 9 = Inr m2" "Get m2 ''a'' = Inr ((7, True), m2)"
    using Set_then_Get [OF m1(2), where key = "''a''" and val = 7 and key' = "''b''" and val' = 9
        and r = "(7, True)" and delIf = "\<lambda>v (s::unit). (False, s)" and s = "()"] ne m1(3)
    by blast
  with m1 ne show ?thesis by blast
qed

lemma entry_of_New:
  "entry_of (New sd inShardCount) key = None"
proof -
  let ?m = "New sd inShardCount :: 'a hmap"
  have ok: "shards_ok ?m" by (rule shards_ok_New)
  have "nat (getIndex ?m key) < length (datas ?m)"
    using getIndex_in_range [OF ok, of key] by auto
  moreover have "datas ?m = replicate (length (datas ?m)) Map.empty"
    by (simp add: New_def Let_def)
  ultimately have "datas ?m ! nat (getIndex ?m key) = Map.empty"
    by (metis nth_replicate)
  then show ?thesis by (simp add: entry_of_def)
qed

text \<open>
  Claim C2. If the key is present with value \<open>old\<close>, \<open>SetWithNotExist\<close> returns \<open>old\<close> with
  \<open>False\<close> and the map it was given. If the key is absent, it returns the new value with
  \<open>True\<close> and a map in which the key has that value and every other key is as before; a
  second \<open>SetWithNotExist\<close> of the same key with any other value then returns the first
  value with \<open>False\<close> and leaves the map alone, so that \<open>Get\<close> still gives the first value.
\<close>

theorem SetWithNotExist_spec:
  fixes m :: "('v::zero) hmap"
  assumes ok: "shards_ok m"
  shows "(Get m key = Inr ((old, True), m) \<longrightarrow>
            SetWithNotExist m key val = Inr ((old, False), m))
    \<and> (Get m key = Inr ((z, False), m) \<longrightarrow>
          (\<exists>m1. SetWithNotExist m key val = Inr ((val, True), m1) \<and> shards_ok m1
             \<and> Get m1 key = Inr ((val, True), m1)
             \<and> (key' \<noteq> key \<and> Get m key' = Inr (r, m) \<longrightarrow> Get m1 key' = Inr (r, m1))
             \<and> SetWithNotExist m1 key other = Inr ((val, False), m1)))"
proof (intro conjI impI)
  assume "Get m key = Inr ((old, True), m)"
  then have "entry_of m key = Some old" using ok by (simp add: Get_present_iff)
  then show "SetWithNotExist m key val = Inr ((old, False), m)"
    using ok by (simp add: SetWithNotExist_present)
next
  assume "Get m key = Inr ((z, False), m)"
  then have none: "entry_of m key = None" using ok by (simp add: Get_absent_iff)
  obtain m1 where m1: "SetWithNotExist m key val = Inr ((val, True), m1)" "shards_ok m1"
    "\<forall>k. entry_of m1 k = (if k = key then Some val else entry_of m k)"
    using SetWithNotExist_absent [OF ok none, of val] by blast
  have here: "entry_of m1 key = Some val" using m1(3) by simp
  have "Get m1 key = Inr ((val, True), m1)"
    using m1(2) here by (simp add: Get_present_iff)
  moreover have "Get m1 key' = Inr (r, m1)" if "key' \<noteq> key \<and> Get m key' = Inr (r, m)"
  proof -
    have "entry_of m1 key' = entry_of m key'" using m1(3) that by simp
    then show ?thesis using that by (intro Get_cong [OF ok m1(2)]) simp_all
  qed
  moreover have "SetWithNotExist m1 key other = Inr ((val, False), m1)"
    using m1(2) here by (rule SetWithNotExist_present)
  ultimately show "\<exists>m1. SetWithNotExist m key val = Inr ((val, True), m1) \<and> shards_ok m1
             \<and> Get m1 key = Inr ((val, True), m1)
             \<and> (key' \<noteq> key \<and> Get m key' = Inr (r, m) \<longrightarrow> Get m1 key' = Inr (r, m1))
             \<and> SetWithNotExist m1 key other = Inr ((val, False), m1)"
    using m1(1,2) by blast
qed

theorem SetWithNotExist_spec_witness:
  "\<exists>m1 :: int hmap.
     Get (New sample_hash (Some 4)) ''k'' = Inr ((0::int, False), New sample_hash (Some 4))
     \<and> SetWithNotExist (New sample_hash (Some 4)) ''k'' 1 = Inr ((1, True), m1)
     \<and> Get m1 ''k'' = Inr ((1, True), m1)
     \<and> SetWithNotExist m1 ''k'' 2 = Inr ((1, False), m1)"
proof -
  let ?m0 = "New sample_hash (Some 4) :: int hmap"
  have ok0: "shards_ok ?m0" by (rule shards_ok_New)
  have g0: "Get ?m0 ''k'' = Inr ((0, False), ?m0)"
    by (simp add: Get_eq [OF ok0] entry_of_New)
  obtain m1 where m1: "SetWithNotExist ?m0 ''k'' 1 = Inr ((1, True), m1)" "shards_ok m1"
    "Get m1 ''k'' = Inr ((1, True), m1)"
    using SetWithNotExist_spec [OF ok0, where key = "''k''" and val = 1 and z = 0 and old = 0
        and key' = "''j''" and r = "(0, False)" and other = 2] g0
    by blast
  have "SetWithNotExist m1 ''k'' 2 = Inr ((1, False), m1)"
    using SetWithNotExist_spec [OF m1(2), where key = "''k''" and val = 2 and z = 0 and old = 1
        and key' = "''j''" and r = "(0, False)" and other = 2] m1(3)
    by blast
  with g0 m1 show ?thesis by blast
qed

text \<open>
  Claim C9. If the key is absent, \<open>GetWithDefault\<close> returns the fallback with \<open>False\<close>
  and the map it was given, so nothing was inserted and the key is still absent; if the key
  is present, it returns the stored value with \<open>True\<close>, whatever the fallback.
\<close>

theorem GetWithDefault_spec:
  fixes m :: "('v::zero) hmap"
  assumes ok: "shards_ok m"
  shows "(Get m key = Inr ((z, False), m) \<longrightarrow>
            GetWithDefault m key dv = Inr ((dv, False), m))
    \<and> (Get m key = Inr ((v, True), m) \<longrightarrow>
            GetWithDefault m key dv = Inr ((v, True), m))"
  using ok by (simp add: Get_eq GetWithDefault_eq split: option.split)

theorem GetWithDefault_spec_witness:
  "\<exists>m1 :: int hmap.
     Get (New sample_hash None) ''height'' = Inr ((0::int, False), New sample_hash None)
     \<and> GetWithDefault (New sample_hash None) ''height'' 170
           = Inr ((170::int, False), New sample_hash None)
     \<and> Set (New sample_hash None) ''age'' (25::int) = Inr m1
     \<and> Get m1 ''age'' = Inr ((25, True), m1)
     \<and> GetWithDefault m1 ''age'' 0 = Inr ((25, True), m1)"
proof -
  let ?m0 = "New sample_hash None :: int hmap"
  have ok0: "shards_ok ?m0" by (rule shards_ok_New)
  have g0: "Get ?m0 ''height'' = Inr ((0, False), ?m0)"
    by (simp add: Get_eq [OF ok0] entry_of_New)
  have d0: "GetWithDefault ?m0 ''height'' 170 = Inr ((170, False), ?m0)"
    using GetWithDefault_spec [OF ok0, where key = "''height''" and z = 0 and v = 0 and dv = 170] g0
    by blast
  obtain m1 where m1: "Set ?m0 ''age'' 25 = Inr m1" "shards_ok m1"
    "\<forall>k. entry_of m1 k = (if k = ''age'' then Some 25 else entry_of ?m0 k)"
    using Set_spec [OF ok0, of "''age''" 25] by blast
  have g1: "Get m1 ''age'' = Inr ((25, True), m1)"
    using m1(2,3) by (simp add: Get_present_iff)
  have "GetWithDefault m1 ''age'' 0 = Inr ((25, True), m1)"
    using GetWithDefault_spec [OF m1(2), where key = "''age''" and z = 0 and v = 25 and dv = 0] g1
    by blast
  with g0 d0 m1(1) g1 show ?thesis by blast
qed

text \<open>
  Claim C6. \<open>DeleteIf\<close> removes the entry of the key and returns \<open>True\<close> exactly when the
  key is present and the predicate, applied to the stored value, answers \<open>True\<close>; every other
  key is as before. If the key is absent the predicate is not called, and if the predicate
  answers \<open>False\<close> nothing is removed: in both cases \<open>DeleteIf\<close> returns \<open>False\<close> and the
  map it was given.
\<close>

theorem DeleteIf_spec:
  fixes m :: "('v::zero) hmap"
  assumes ok: "shards_ok m"
  shows "(Get m key = Inr ((z, False), m) \<longrightarrow> DeleteIf m key delIf s = Inr (False, m, s))
    \<and> (Get m key = Inr ((v, True), m) \<and> delIf v s = (False, s') \<longrightarrow>
          DeleteIf m key delIf s = Inr (False, m, s'))
    \<and> (Get m key = Inr ((v, True), m) \<and> delIf v s = (True, s') \<longrightarrow>
          (\<exists>m1. DeleteIf m key delIf s = Inr (True, m1, s') \<and> shards_ok m1
             \<and> Get m1 key = Inr ((0, False), m1)
             \<and> (key' \<noteq> key \<and> Get m key' = Inr (r, m) \<longrightarrow> Get m1 key' = Inr (r, m1))))"
proof (intro conjI impI)
  assume "Get m key = Inr ((z, False), m)"
  then have "entry_of m key = None" using ok by (simp add: Get_absent_iff)
  then show "DeleteIf m key delIf s = Inr (False, m, s)"
    using ok by (simp add: DeleteIf_absent)
next
  assume h: "Get m key = Inr ((v, True), m) \<and> delIf v s = (False, s')"
  then have some: "entry_of m key = Some v" using ok by (simp add: Get_present_iff)
  from h have d: "delIf v s = (False, s')" by blast
  show "DeleteIf m key delIf s = Inr (False, m, s')"
    using ok some d by (rule DeleteIf_refused [where delIf = delIf and s = s])
next
  assume h: "Get m key = Inr ((v, True), m) \<and> delIf v s = (True, s')"
  then have some: "entry_of m key = Some v" using ok by (simp add: Get_present_iff)
  from h have d: "delIf v s = (True, s')" by blast
  obtain m1 where m1: "DeleteIf m key delIf s = Inr (True, m1, s')" "shards_ok m1"
    "\<forall>k. entry_of m1 k = (if k = key then None else entry_of m k)"
    using DeleteIf_accepted [where delIf = delIf and s = s, OF ok some d] by blast
  have "Get m1 key = Inr ((0, False), m1)"
    using m1(2,3) by (simp add: Get_absent_iff)
  moreover have "Get m1 key' = Inr (r, m1)" if "key' \<noteq> key \<and> Get m key' = Inr (r, m)"
  proof -
    have "entry_of m1 key' = entry_of m key'" using m1(3) that by simp
    then show ?thesis using that by (intro Get_cong [OF ok m1(2)]) simp_all
  qed
  ultimately show "\<exists>m1. DeleteIf m key delIf s = Inr (True, m1, s') \<and> shards_ok m1
             \<and> Get m1 key = Inr ((0, False), m1)
             \<and> (key' \<noteq> key \<and> Get m key' = Inr (r, m) \<longrightarrow> Get m1 key' = Inr (r, m1))"
    using m1(1,2) by blast
qed

theorem DeleteIf_spec_witness:
  "\<exists>m1 m2 m3 :: int hmap.
     Set (New sample_hash None) ''counter'' 10 = Inr m1
     \<and> Get m1 ''counter'' = Inr ((10, True), m1) \<and> over_five 10 0 = (True, 1)
     \<and> DeleteIf m1 ''counter'' over_five 0 = Inr (True, m2, 1)
     \<and> Get m2 ''counter'' = Inr ((0, False), m2)
     \<and> DeleteIf m2 ''counter'' over_five 1 = Inr (False, m2, 1)
     \<and> Set m2 ''counter'' 3 = Inr m3
     \<and> Get m3 ''counter'' = Inr ((3, True), m3) \<and> over_five 3 1 = (False, 2)
     \<and> DeleteIf m3 ''counter'' over_five 1 = Inr (False, m3, 2)"
proof -
  let ?m0 = "New sample_hash None :: int hmap"
  have ok0: "shards_ok ?m0" by (rule shards_ok_New)
  obtain m1 where m1: "Set ?m0 ''counter'' 10 = Inr m1" "shards_ok m1"
    "\<forall>k. entry_of m1 k = (if k = ''counter'' then Some 10 else entry_of ?m0 k)"
    using Set_spec [OF ok0, of "''counter''" 10] by blast
  have g1: "Get m1 ''counter'' = Inr ((10, True), m1)"
    using m1(2,3) by (simp add: Get_present_iff)
  have p1: "over_five 10 0 = (True, 1)" by (simp add: over_five_def)
  obtain m2 where m2: "DeleteIf m1 ''counter'' over_five 0 = Inr (True, m2, 1)" "shards_ok m2"
    "Get m2 ''counter'' = Inr ((0, False), m2)"
    using DeleteIf_spec [OF m1(2), where key = "''counter''" and delIf = over_five and s = 0
        and s' = 1 and v = 10 and z = 0 and key' = "''other''" and r = "(0, False)"] g1 p1
    by blast
  have d2: "DeleteIf m2 ''counter'' over_five 1 = Inr (False, m2, 1)"
    using DeleteIf_spec [OF m2(2), where key = "''counter''" and delIf = over_five and s = 1
        and s' = 1 and v = 10 and z = 0 and key' = "''other''" and r = "(0, False)"] m2(3)
    by blast
  obtain m3 where m3: "Set m2 ''counter'' 3 = Inr m3" "shards_ok m3"
    "\<forall>k. entry_of m3 k = (if k = ''counter'' then Some 3 else entry_of m2 k)"
    using Set_spec [OF m2(2), of "''counter''" 3] by blast
  have g3: "Get m3 ''counter'' = Inr ((3, True), m3)"
    using m3(2,3) by (simp add: Get_present_iff)
  have p3: "over_five 3 1 = (False, 2)" by (simp add: over_five_def)
  have d3: "DeleteIf m3 ''counter'' over_five 1 = Inr (False, m3, 2)"
    using DeleteIf_spec [OF m3(2), where key = "''counter''" and delIf = over_five and s = 1
        and s' = 2 and v = 3 and z = 0 and key' = "''other''" and r = "(0, False)"] g3 p3
    by blast
  show ?thesis using m1(1) g1 p1 m2(1,3) d2 m3(1) g3 p3 d3 by blast
qed

text \<open>
  Claim C7. \<open>Delete\<close> of an absent key returns \<open>False\<close> and the map it was given, whose
  \<open>Len\<close> is therefore what it was; \<open>Delete\<close> of a present key returns \<open>True\<close> and a map
  in which the key is absent and every other key is as before.
\<close>

theorem Delete_spec:
  fixes m :: "('v::zero) hmap"
  assumes ok: "shards_ok m"
  shows "(Get m key = Inr ((z, False), m) \<longrightarrow>
            (\<exists>m1. Delete m key = Inr (False, m1) \<and> m1 = m \<and> Len m1 = Len m))
    \<and> (Get m key = Inr ((v, True), m) \<longrightarrow>
          (\<exists>m1. Delete m key = Inr (True, m1) \<and> shards_ok m1
             \<and> Get m1 key = Inr ((0, False), m1)
             \<and> (key' \<noteq> key \<and> Get m key' = Inr (r, m) \<longrightarrow> Get m1 key' = Inr (r, m1))))"
proof (intro conjI impI)
  assume "Get m key = Inr ((z, False), m)"
  then have "entry_of m key = None" using ok by (simp add: Get_absent_iff)
  then have "Delete m key = Inr (False, m)" using ok by (simp add: Delete_absent)
  then show "\<exists>m1. Delete m key = Inr (False, m1) \<and> m1 = m \<and> Len m1 = Len m" by simp
next
  assume "Get m key = Inr ((v, True), m)"
  then have some: "entry_of m key = Some v" using ok by (simp add: Get_present_iff)
  obtain m1 where m1: "Delete m key = Inr (True, m1)" "shards_ok m1"
    "\<forall>k. entry_of m1 k = (if k = key then None else entry_of m k)"
    using Delete_present [OF ok some] by blast
  have "Get m1 key = Inr ((0, False), m1)"
    using m1(2,3) by (simp add: Get_absent_iff)
  moreover have "Get m1 key' = Inr (r, m1)" if "key' \<noteq> key \<and> Get m key' = Inr (r, m)"
  proof -
    have "entry_of m1 key' = entry_of m key'" using m1(3) that by simp
    then show ?thesis using that by (intro Get_cong [OF ok m1(2)]) simp_all
  qed
  ultimately show "\<exists>m1. Delete m key = Inr (True, m1) \<and> shards_ok m1
             \<and> Get m1 key = Inr ((0, False), m1)
             \<and> (key' \<noteq> key \<and> Get m key' = Inr (r, m) \<longrightarrow> Get m1 key' = Inr (r, m1))"
    using m1(1,2) by blast
qed


theorem Delete_spec_witness:
  "\<exists>m1 m2 :: int hmap.
     Get (New sample_hash None) ''name'' = Inr ((0::int, False), New sample_hash None)
     \<and> Delete (New sample_hash None) ''name'' = Inr (False, New sample_hash None :: int hmap)
     \<and> Set (New sample_hash None) ''name'' 1 = Inr m1
     \<and> Get m1 ''name'' = Inr ((1, True), m1)
     \<and> Delete m1 ''name'' = Inr (True, m2)
     \<and> Get m2 ''name'' = Inr ((0, False), m2)"
proof -
  let ?m0 = "New sample_hash None :: int hmap"
  have ok0: "shards_ok ?m0" by (rule shards_ok_New)
  have g0: "Get ?m0 ''name'' = Inr ((0, False), ?m0)"
    by (simp add: Get_eq [OF ok0] entry_of_New)
  have d0: "Delete ?m0 ''name'' = Inr (False, ?m0)"
    using Delete_spec [OF ok0, where key = "''name''" and z = 0 and v = 0
        and key' = "''other''" and r = "(0, False)"] g0
    by blast
  obtain m1 where m1: "Set ?m0 ''name'' 1 = Inr m1" "shards_ok m1"
    "\<forall>k. entry_of m1 k = (if k = ''name'' then Some 1 else entry_of ?m0 k)"
    using Set_spec [OF ok0, of "''name''" 1] by blast
  have g1: "Get m1 ''name'' = Inr ((1, True), m1)"
    using m1(2,3) by (simp add: Get_present_iff)
  obtain m2 where m2: "Delete m1 ''name'' = Inr (True, m2)"
    "Get m2 ''name'' = Inr ((0, False), m2)"
    using Delete_spec [OF m1(2), where key = "''name''" and z = 0 and v = 1
        and key' = "''other''" and r = "(0, False)"] g1
    by blast
  show ?thesis using g0 d0 m1(1) g1 m2 by blast
qed

section \<open>Walking all shards\<close>

subsection \<open>The inner loop of \<open>Prune\<close>\<close>

lemma restrict_del:
  "(d(key := None)) |` (- set ds) = d |` (- set (key # ds))"
  by (auto simp: restrict_map_def fun_eq_iff)

lemma restrict_all [simp]:
  "d |` UNIV = d"
  by (simp add: restrict_map_def)

lemma prune_run_append:
  "prune_run f (es1 @ es2) s =
     (case prune_run f es1 s of
        (Some e, ds, n, s') \<Rightarrow> (Some e, ds, n, s')
      | (None, ds1, n1, s1) \<Rightarrow>
          (case prune_run f es2 s1 of (err, ds2, n2, s2) \<Rightarrow> (err, ds1 @ ds2, n1 + n2, s2)))"
proof (induction es1 arbitrary: s)
  case Nil
  show ?case by (simp split: prod.split)
next
  case (Cons kv es1)
  obtain key val where kv: "kv = (key, val)" by (cases kv)
  obtain ok err s' where f: "f key val s = ((ok, err), s')"
    by (metis prod.exhaust)
  show ?case
  proof (cases err)
    case (Some e)
    with f kv show ?thesis by simp
  next
    case None
    with f kv Cons.IH [of s'] show ?thesis
      by (simp split: prod.split option.split)
  qed
qed

lemma Prune_entries_run:
  assumes "i < length (datas m)"
  shows "Prune_entries f i es (m, delNum, nowNum, s) =
     (case prune_run f es s of
        (err, ds, n, s') \<Rightarrow>
          (err, (m\<lparr>datas := (datas m)[i := (datas m ! i) |` (- set ds)]\<rparr>,
                 delNum + length ds, nowNum + n, s')))"
  using assms
proof (induction es arbitrary: m delNum nowNum s)
  case Nil
  then show ?case by simp
next
  case (Cons kv es)
  obtain key val where kv: "kv = (key, val)" by (cases kv)
  obtain ok err s' where f: "f key val s = ((ok, err), s')"
    by (metis prod.exhaust)
  show ?case
  proof (cases err)
    case (Some e)
    with f kv Cons.prems show ?thesis by simp
  next
    case None
    show ?thesis
    proof (cases ok)
      case False
      with None f kv Cons.IH [OF Cons.prems, of delNum "nowNum + 1" s'] show ?thesis
        by (simp split: prod.split)
    next
      case True
      let ?m1 = "m\<lparr>datas := (datas m)[i := (datas m ! i)(key := None)]\<rparr>"
      have len: "i < length (datas ?m1)" using Cons.prems by simp
      have e1: "(datas ?m1 ! i) |` (- set ds) = (datas m ! i) |` (- set (key # ds))" for ds
      proof -
        have "datas ?m1 ! i = (datas m ! i)(key := None)" using Cons.prems by simp
        then show ?thesis by (simp only: restrict_del)
      qed
      have e2: "?m1\<lparr>datas := (datas ?m1)[i := X]\<rparr> = m\<lparr>datas := (datas m)[i := X]\<rparr>" for X
        by simp
      have upd: "?m1\<lparr>datas := (datas ?m1)[i := (datas ?m1 ! i) |` (- set ds)]\<rparr>
                   = m\<lparr>datas := (datas m)[i := (datas m ! i) |` (- set (key # ds))]\<rparr>" for ds
        by (simp only: e1 e2)
      note IH = Cons.IH [OF len, of "delNum + 1" nowNum s', unfolded upd]
      have "Prune_entries f i (kv # es) (m, delNum, nowNum, s) =
              Prune_entries f i es (?m1, delNum + 1, nowNum, s')"
        using True None f kv by simp
      also note IH
      finally show ?thesis
        using True None f kv by (simp del: set_simps split: prod.split)
    qed
  qed
qed

subsection \<open>The outer loop of \<open>Prune\<close>\<close>

lemma prune_run_keys:
  "prune_run f es s = (err, ds, n, s') \<Longrightarrow> set ds \<subseteq> fst ` set es"
proof (induction es arbitrary: s err ds n s')
  case Nil
  then show ?case by simp
next
  case (Cons kv es)
  obtain key val where kv: "kv = (key, val)" by (cases kv)
  obtain ok e s1 where f: "f key val s = ((ok, e), s1)"
    by (metis prod.exhaust)
  show ?case
  proof (cases e)
    case (Some x)
    with f kv Cons.prems show ?thesis by simp
  next
    case None
    obtain err2 ds2 n2 s2 where r: "prune_run f es s1 = (err2, ds2, n2, s2)"
      by (metis prod.exhaust)
    have "set ds2 \<subseteq> fst ` set es" using r by (rule Cons.IH)
    with None f kv r Cons.prems show ?thesis
      by (cases ok) auto
  qed
qed

lemma getIndex_datas_length:
  "length (datas m') = length (datas m) \<Longrightarrow> seed m' = seed m \<Longrightarrow> getIndex m' key = getIndex m key"
  by (simp add: getIndex_def)

lemma keys_placed_restrict:
  assumes "keys_placed m"
  shows "keys_placed (m\<lparr>datas := map (\<lambda>d. d |` A) (datas m)\<rparr>)"
proof -
  let ?m' = "m\<lparr>datas := map (\<lambda>d. d |` A) (datas m)\<rparr>"
  have g: "getIndex ?m' key = getIndex m key" for key
    by (rule getIndex_datas_length) simp_all
  show ?thesis
    unfolding keys_placed_def
  proof (intro allI impI ballI)
    fix i key
    assume i: "i < length (datas ?m')" and key: "key \<in> dom (datas ?m' ! i)"
    from i have i': "i < length (datas m)" by simp
    with key have "key \<in> dom (datas m ! i)" by (auto simp: restrict_map_def split: if_splits)
    with assms i' have "getIndex m key = int i" by (simp add: keys_placed_def)
    then show "getIndex ?m' key = int i" by (simp only: g)
  qed
qed

lemma shard_restrict_other:
  assumes "keys_placed m" "i < length (datas m)" "j < length (datas m)" "j \<noteq> i"
    "A \<subseteq> dom (datas m ! i)"
  shows "(datas m ! j) |` (- A) = datas m ! j"
proof (rule ext)
  fix key
  show "((datas m ! j) |` (- A)) key = (datas m ! j) key"
  proof (cases "key \<in> A")
    case True
    with assms(5) have "key \<in> dom (datas m ! i)" by blast
    with assms(1,2) have "getIndex m key = int i" by (simp add: keys_placed_def)
    with assms(4) have "getIndex m key \<noteq> int j" by simp
    with assms(1,3) have "key \<notin> dom (datas m ! j)" by (auto simp: keys_placed_def)
    then show ?thesis by (simp add: restrict_map_def domIff)
  next
    case False
    then show ?thesis by simp
  qed
qed

lemma local_delete_is_global:
  assumes "keys_placed m" "i < length (datas m)" "A \<subseteq> dom (datas m ! i)"
  shows "m\<lparr>datas := (datas m)[i := (datas m ! i) |` (- A)]\<rparr>
           = m\<lparr>datas := map (\<lambda>d. d |` (- A)) (datas m)\<rparr>"
proof -
  have "(datas m)[i := (datas m ! i) |` (- A)] = map (\<lambda>d. d |` (- A)) (datas m)"
  proof (rule nth_equalityI)
    show "length ((datas m)[i := (datas m ! i) |` (- A)]) = length (map (\<lambda>d. d |` (- A)) (datas m))"
      by simp
  next
    fix j
    assume "j < length ((datas m)[i := (datas m ! i) |` (- A)])"
    then have j: "j < length (datas m)" by simp
    show "(datas m)[i := (datas m ! i) |` (- A)] ! j = map (\<lambda>d. d |` (- A)) (datas m) ! j"
    proof (cases "j = i")
      case True
      with j show ?thesis by simp
    next
      case False
      with j shard_restrict_other [OF assms(1,2) j False assms(3)] show ?thesis by simp
    qed
  qed
  then show ?thesis by simp
qed

lemma restrict_twice:
  "map (\<lambda>d. d |` (- set ds2)) (map (\<lambda>d. d |` (- set ds1)) xs)
     = map (\<lambda>d. d |` (- set (ds1 @ ds2))) xs"
proof -
  have "- set ds1 \<inter> - set ds2 = - set (ds1 @ ds2)" by auto
  then show ?thesis by (simp add: o_def)
qed

lemma Prune_shards_run:
  assumes "keys_placed m" "distinct is"
    "\<forall>i\<in>set is. i < length (datas m) \<and> fst ` set (ord i (datas m ! i)) \<subseteq> dom (datas m ! i)"
  shows "Prune_shards ord f is (m, delNum, nowNum, s) =
     (case prune_run f (concat (map (\<lambda>i. ord i (datas m ! i)) is)) s of
        (err, ds, n, s') \<Rightarrow>
          ((delNum + length ds, nowNum + n, err),
           m\<lparr>datas := map (\<lambda>d. d |` (- set ds)) (datas m)\<rparr>, s'))"
  using assms
proof (induction "is" arbitrary: m delNum nowNum s)
  case Nil
  then show ?case by simp
next
  case (Cons i "is")
  let ?es = "ord i (datas m ! i)"
  let ?rest = "concat (map (\<lambda>j. ord j (datas m ! j)) is)"
  obtain err1 ds1 n1 s1 where run1: "prune_run f ?es s = (err1, ds1, n1, s1)"
    by (metis prod.exhaust)
  have i: "i < length (datas m)" and sub: "fst ` set ?es \<subseteq> dom (datas m ! i)"
    using Cons.prems(3) by simp_all
  have ds1: "set ds1 \<subseteq> dom (datas m ! i)"
    using prune_run_keys [OF run1] sub by blast
  let ?m1 = "m\<lparr>datas := map (\<lambda>d. d |` (- set ds1)) (datas m)\<rparr>"
  have inner: "Prune_entries f i ?es (m, delNum, nowNum, s) =
      (err1, (?m1, delNum + length ds1, nowNum + n1, s1))"
    using Prune_entries_run [OF i, of f ?es delNum nowNum s] run1
      local_delete_is_global [OF Cons.prems(1) i ds1]
    by simp
  show ?case
  proof (cases err1)
    case (Some e)
    have "prune_run f (?es @ ?rest) s = (Some e, ds1, n1, s1)"
      using run1 Some by (simp add: prune_run_append)
    with inner Some show ?thesis by simp
  next
    case None
    have same: "datas ?m1 ! j = datas m ! j" if "j \<in> set is" for j
    proof -
      have j: "j < length (datas m)" "j \<noteq> i"
        using that Cons.prems(2,3) by auto
      show ?thesis
        using shard_restrict_other [OF Cons.prems(1) i j ds1] j(1) by simp
    qed
    have rest: "concat (map (\<lambda>j. ord j (datas ?m1 ! j)) is) = ?rest"
      using same by (simp cong: map_cong)
    have p1: "keys_placed ?m1" using Cons.prems(1) by (rule keys_placed_restrict)
    have p2: "distinct is" using Cons.prems(2) by simp
    have p3: "\<forall>j\<in>set is. j < length (datas ?m1)
                \<and> fst ` set (ord j (datas ?m1 ! j)) \<subseteq> dom (datas ?m1 ! j)"
      using Cons.prems(3) same by simp
    obtain err2 ds2 n2 s2 where run2: "prune_run f ?rest s1 = (err2, ds2, n2, s2)"
      by (metis prod.exhaust)
    have "Prune_shards ord f (i # is) (m, delNum, nowNum, s) =
            Prune_shards ord f is (?m1, delNum + length ds1, nowNum + n1, s1)"
      using inner None by simp
    also have "\<dots> = ((delNum + length ds1 + length ds2, nowNum + n1 + n2, err2),
                      ?m1\<lparr>datas := map (\<lambda>d. d |` (- set ds2)) (datas ?m1)\<rparr>, s2)"
      using Cons.IH [OF p1 p2 p3, of "delNum + length ds1" "nowNum + n1" s1] run2
      by (simp only: rest prod.case)
    also have "?m1\<lparr>datas := map (\<lambda>d. d |` (- set ds2)) (datas ?m1)\<rparr>
                 = m\<lparr>datas := map (\<lambda>d. d |` (- set (ds1 @ ds2))) (datas m)\<rparr>"
      using restrict_twice [of ds2 ds1 "datas m"] by simp
    finally have lhs: "Prune_shards ord f (i # is) (m, delNum, nowNum, s) =
        ((delNum + length ds1 + length ds2, nowNum + n1 + n2, err2),
         m\<lparr>datas := map (\<lambda>d. d |` (- set (ds1 @ ds2))) (datas m)\<rparr>, s2)" .
    have "prune_run f (?es @ ?rest) s = (err2, ds1 @ ds2, n1 + n2, s2)"
      using run1 None run2 by (simp add: prune_run_append)
    with lhs show ?thesis by (simp add: add.assoc)
  qed
qed

subsection \<open>The entries met by a walk\<close>

lemma iterates_shard:
  assumes "iterates ord m" "i < length (datas m)"
  shows "distinct (map fst (ord i (datas m ! i)))"
    and "(key, val) \<in> set (ord i (datas m ! i)) \<longleftrightarrow> (datas m ! i) key = Some val"
    and "fst ` set (ord i (datas m ! i)) = dom (datas m ! i)"
proof -
  let ?es = "ord i (datas m ! i)"
  show d: "distinct (map fst ?es)" and m: "fst ` set ?es = dom (datas m ! i)"
    using assms dom_map_of_conv_image_fst [of ?es] by (auto simp: iterates_def)
  have "map_of ?es = datas m ! i" using assms by (simp add: iterates_def)
  then show "(key, val) \<in> set ?es \<longleftrightarrow> (datas m ! i) key = Some val"
    using map_of_eq_Some_iff [OF d, of key val] by simp
qed

lemma Prune_run:
  assumes "keys_placed m" "iterates ord m"
  shows "Prune ord f m s =
     (case prune_run f (all_entries ord m) s of
        (err, ds, n, s') \<Rightarrow>
          ((length ds, n, err), m\<lparr>datas := map (\<lambda>d. d |` (- set ds)) (datas m)\<rparr>, s'))"
proof -
  have "\<forall>i\<in>set [0..<length (datas m)].
          i < length (datas m) \<and> fst ` set (ord i (datas m ! i)) \<subseteq> dom (datas m ! i)"
    using iterates_shard(3) [OF assms(2)] by simp
  then show ?thesis
    using Prune_shards_run [OF assms(1), of "[0..<length (datas m)]" ord f 0 0 s]
    by (simp add: Prune_def all_entries_def)
qed

lemma all_entries_iff:
  assumes "shards_ok m" "keys_placed m" "iterates ord m"
  shows "(key, val) \<in> set (all_entries ord m) \<longleftrightarrow> entry_of m key = Some val"
proof
  assume "(key, val) \<in> set (all_entries ord m)"
  then obtain i where i: "i < length (datas m)" "(key, val) \<in> set (ord i (datas m ! i))"
    by (auto simp: all_entries_def)
  then have v: "(datas m ! i) key = Some val"
    using iterates_shard(2) [OF assms(3)] by simp
  then have "key \<in> dom (datas m ! i)" by blast
  with assms(2) i(1) have "getIndex m key = int i" by (simp add: keys_placed_def)
  with v show "entry_of m key = Some val" by (simp add: entry_of_def)
next
  assume e: "entry_of m key = Some val"
  let ?i = "nat (getIndex m key)"
  have i: "?i < length (datas m)"
    using getIndex_in_range [OF assms(1), of key] by auto
  from e have "(datas m ! ?i) key = Some val" by (simp add: entry_of_def)
  then have "(key, val) \<in> set (ord ?i (datas m ! ?i))"
    using iterates_shard(2) [OF assms(3) i] by simp
  with i show "(key, val) \<in> set (all_entries ord m)"
    by (auto simp: all_entries_def)
qed

lemma distinct_entries:
  assumes "keys_placed m" "iterates ord m" "distinct is" "\<forall>i\<in>set is. i < length (datas m)"
  shows "distinct (map fst (concat (map (\<lambda>i. ord i (datas m ! i)) is)))"
  using assms(3,4)
proof (induction "is")
  case Nil
  show ?case by simp
next
  case (Cons i "is")
  have i: "i < length (datas m)" using Cons.prems by simp
  have "fst ` set (ord i (datas m ! i)) \<inter> fst ` set (concat (map (\<lambda>j. ord j (datas m ! j)) is)) = {}"
  proof (rule ccontr)
    assume "\<not> ?thesis"
    then obtain key j where key: "key \<in> fst ` set (ord i (datas m ! i))"
      "j \<in> set is" "key \<in> fst ` set (ord j (datas m ! j))"
      by auto
    have j: "j < length (datas m)" "j \<noteq> i" using key(2) Cons.prems by auto
    have "key \<in> dom (datas m ! i)" using key(1) iterates_shard(3) [OF assms(2) i] by simp
    then have "getIndex m key = int i" using assms(1) i by (simp add: keys_placed_def)
    moreover have "key \<in> dom (datas m ! j)"
      using key(3) iterates_shard(3) [OF assms(2) j(1)] by simp
    then have "getIndex m key = int j" using assms(1) j(1) by (simp add: keys_placed_def)
    ultimately show False using j(2) by simp
  qed
  moreover have "distinct (map fst (ord i (datas m ! i)))"
    using iterates_shard(1) [OF assms(2) i] .
  moreover have "distinct (map fst (concat (map (\<lambda>j. ord j (datas m ! j)) is)))"
    using Cons by simp
  ultimately show ?case by simp
qed

lemma distinct_all_entries:
  assumes "keys_placed m" "iterates ord m"
  shows "distinct (map fst (all_entries ord m))"
  unfolding all_entries_def
  using assms by (rule distinct_entries) simp_all

lemma Len_loop_sum:
  "Len_loop ds count = count + sum_list (map (\<lambda>d. card (dom d)) ds)"
  by (induction ds arbitrary: count) simp_all

lemma Len_all_entries:
  assumes "iterates ord m"
  shows "Len m = length (all_entries ord m)"
proof -
  have card: "card (dom (datas m ! i)) = length (ord i (datas m ! i))" if "i < length (datas m)" for i
  proof -
    have "card (fst ` set (ord i (datas m ! i))) = length (map fst (ord i (datas m ! i)))"
      using iterates_shard(1) [OF assms that] distinct_card by fastforce
    then show ?thesis using iterates_shard(3) [OF assms that] by simp
  qed
  have "Len m = sum_list (map (\<lambda>d. card (dom d)) (datas m))"
    by (simp add: Len_def Len_loop_sum)
  also have "\<dots> = sum_list (map (\<lambda>i. card (dom (datas m ! i))) [0..<length (datas m)])"
  proof -
    have "map (\<lambda>d. card (dom d)) (datas m)
            = map (\<lambda>i. card (dom (datas m ! i))) [0..<length (datas m)]"
      by (rule nth_equalityI) simp_all
    then show ?thesis by simp
  qed
  also have "\<dots> = sum_list (map (\<lambda>i. length (ord i (datas m ! i))) [0..<length (datas m)])"
  proof -
    have "map (\<lambda>i. card (dom (datas m ! i))) [0..<length (datas m)]
            = map (\<lambda>i. length (ord i (datas m ! i))) [0..<length (datas m)]"
      by (rule map_cong) (simp_all add: card)
    then show ?thesis by (rule arg_cong)
  qed
  also have "\<dots> = length (all_entries ord m)"
    by (simp add: all_entries_def length_concat o_def)
  finally show ?thesis .
qed

lemma entry_of_restrict:
  assumes "shards_ok m"
  shows "entry_of (m\<lparr>datas := map (\<lambda>d. d |` (- A)) (datas m)\<rparr>) key =
           (if key \<in> A then None else entry_of m key)"
proof -
  let ?m' = "m\<lparr>datas := map (\<lambda>d. d |` (- A)) (datas m)\<rparr>"
  have g: "getIndex ?m' key = getIndex m key"
    by (rule getIndex_datas_length) simp_all
  have "nat (getIndex m key) < length (datas m)"
    using getIndex_in_range [OF assms, of key] by auto
  then show ?thesis by (simp add: entry_of_def g)
qed

lemma shards_ok_restrict:
  "shards_ok (m\<lparr>datas := map (\<lambda>d. d |` A) (datas m)\<rparr>) = shards_ok m"
  by (simp add: shards_ok_def)

subsection \<open>Running the callback of \<open>Prune\<close>\<close>

lemma prune_run_pure:
  "prune_run (pure_pred p) es s =
     (None, map fst (filter (\<lambda>(k, v). p k v) es), length (filter (\<lambda>(k, v). \<not> p k v) es), s)"
  by (induction es) (auto simp: pure_pred_def)

lemma prune_run_logged:
  assumes "prune_run (logged_prune_fn f) es (s, log) = (err, ds, n, (s', log'))"
  shows "prune_run f es s = (err, ds, n, s') \<and>
     (\<exists>calls. log' = log @ calls \<and> (\<exists>rest. es = map fst calls @ rest)
        \<and> ds = map (\<lambda>c. fst (fst c)) (filter (\<lambda>c. snd c = (True, None)) calls)
        \<and> n = length (filter (\<lambda>c. snd c = (False, None)) calls)
        \<and> (\<forall>c\<in>set (butlast calls). snd (snd c) = None)
        \<and> (case err of
              None \<Rightarrow> map fst calls = es \<and> (\<forall>c\<in>set calls. snd (snd c) = None)
            | Some e \<Rightarrow> calls \<noteq> [] \<and> snd (snd (last calls)) = Some e))"
  using assms
proof (induction es arbitrary: s log err ds n s' log')
  case Nil
  then show ?case by simp
next
  case (Cons kv es)
  obtain key val where kv: "kv = (key, val)" by (cases kv)
  obtain ok e s1 where f: "f key val s = ((ok, e), s1)"
    by (metis prod.exhaust)
  let ?c = "((key, val), (ok, e))"
  have lf: "logged_prune_fn f key val (s, log) = ((ok, e), (s1, log @ [?c]))"
    using f by (simp add: logged_prune_fn_def)
  show ?case
  proof (cases e)
    case (Some x)
    have res: "err = Some x" "ds = []" "n = 0" "s' = s1" "log' = log @ [?c]"
      using Cons.prems lf Some kv by auto
    have run: "prune_run f (kv # es) s = (err, ds, n, s')"
      using f Some kv res by simp
    have "log' = log @ [?c] \<and> (\<exists>rest. kv # es = map fst [?c] @ rest)
        \<and> ds = map (\<lambda>c. fst (fst c)) (filter (\<lambda>c. snd c = (True, None)) [?c])
        \<and> n = length (filter (\<lambda>c. snd c = (False, None)) [?c])
        \<and> (\<forall>c\<in>set (butlast [?c]). snd (snd c) = None)
        \<and> (case err of
              None \<Rightarrow> map fst [?c] = kv # es \<and> (\<forall>c\<in>set [?c]. snd (snd c) = None)
            | Some e \<Rightarrow> [?c] \<noteq> [] \<and> snd (snd (last [?c])) = Some e)"
      using res Some kv by simp
    with run show ?thesis by blast
  next
    case None
    obtain err2 ds2 n2 s2 log2 where
      r2: "prune_run (logged_prune_fn f) es (s1, log @ [?c]) = (err2, ds2, n2, (s2, log2))"
      by (metis prod.exhaust)
    from Cons.IH [OF r2] obtain calls where
      run2: "prune_run f es s1 = (err2, ds2, n2, s2)" and
      c: "log2 = (log @ [?c]) @ calls" "\<exists>rest. es = map fst calls @ rest"
         "ds2 = map (\<lambda>c. fst (fst c)) (filter (\<lambda>c. snd c = (True, None)) calls)"
         "n2 = length (filter (\<lambda>c. snd c = (False, None)) calls)"
         "\<forall>c\<in>set (butlast calls). snd (snd c) = None"
         "case err2 of
              None \<Rightarrow> map fst calls = es \<and> (\<forall>c\<in>set calls. snd (snd c) = None)
            | Some e \<Rightarrow> calls \<noteq> [] \<and> snd (snd (last calls)) = Some e"
      by blast
    have res: "err = err2" "ds = (if ok then key # ds2 else ds2)"
      "n = (if ok then n2 else Suc n2)" "s' = s2" "log' = log2"
      using Cons.prems lf None kv r2 by (auto split: if_splits)
    have run: "prune_run f (kv # es) s = (err, ds, n, s')"
      using f None kv run2 res by simp
    have "log' = log @ (?c # calls) \<and> (\<exists>rest. kv # es = map fst (?c # calls) @ rest)
        \<and> ds = map (\<lambda>c. fst (fst c)) (filter (\<lambda>c. snd c = (True, None)) (?c # calls))
        \<and> n = length (filter (\<lambda>c. snd c = (False, None)) (?c # calls))
        \<and> (\<forall>c\<in>set (butlast (?c # calls)). snd (snd c) = None)
        \<and> (case err of
              None \<Rightarrow> map fst (?c # calls) = kv # es \<and> (\<forall>c\<in>set (?c # calls). snd (snd c) = None)
            | Some e \<Rightarrow> ?c # calls \<noteq> [] \<and> snd (snd (last (?c # calls))) = Some e)"
      using res c None kv by (cases err2) auto
    with run show ?thesis by blast
  qed
qed

lemma count_distinct_keys:
  assumes "distinct (map fst es)"
  shows "length (filter (\<lambda>(k, v). P k v) es) = card {k. \<exists>v. (k, v) \<in> set es \<and> P k v}"
proof -
  let ?S = "set (filter (\<lambda>(k, v). P k v) es)"
  have d: "distinct es" and inj: "inj_on fst (set es)"
    using assms by (simp_all add: distinct_map)
  have "inj_on fst ?S" by (rule inj_on_subset [OF inj]) auto
  then have "card (fst ` ?S) = card ?S" by (rule card_image)
  also have "card ?S = length (filter (\<lambda>(k, v). P k v) es)"
    by (rule distinct_card) (simp add: d)
  also have "fst ` ?S = {k. \<exists>v. (k, v) \<in> set es \<and> P k v}" by force
  finally show ?thesis by simp
qed

text \<open>
  Claim C5. A predicate without errors and without state makes \<open>Prune\<close> delete exactly the
  entries that satisfy it and keep the others: the callback's error is \<open>None\<close>, the first
  count is the number of entries that satisfy the predicate, the second the number of those
  that do not, and afterwards \<open>Get\<close> finds a key with a value exactly when it found them
  before and the predicate rejects them. Every entry is counted once, so the two counts add up
  to \<open>Len\<close> of the map before the call.
\<close>

theorem Prune_pure:
  fixes m :: "('v::zero) hmap"
  assumes ok: "shards_ok m" and placed: "keys_placed m" and it: "iterates ord m"
  shows "\<exists>m1. Prune ord (pure_pred p :: ('v, 'e, 's) prune_fn) m s =
            ((card {k. \<exists>v. Get m k = Inr ((v, True), m) \<and> p k v},
              card {k. \<exists>v. Get m k = Inr ((v, True), m) \<and> \<not> p k v}, None), m1, s)
          \<and> shards_ok m1 \<and> keys_placed m1
          \<and> (\<forall>key val. Get m1 key = Inr ((val, True), m1) \<longleftrightarrow>
                 Get m key = Inr ((val, True), m) \<and> \<not> p key val)
          \<and> card {k. \<exists>v. Get m k = Inr ((v, True), m) \<and> p k v}
              + card {k. \<exists>v. Get m k = Inr ((v, True), m) \<and> \<not> p k v} = Len m"
proof -
  let ?es = "all_entries ord m"
  define ds where "ds = map fst (filter (\<lambda>(k, v). p k v) ?es)"
  let ?m1 = "m\<lparr>datas := map (\<lambda>d. d |` (- set ds)) (datas m)\<rparr>"
  have mem: "(k, v) \<in> set ?es \<longleftrightarrow> Get m k = Inr ((v, True), m)" for k v
    using all_entries_iff [OF ok placed it] by (simp add: Get_present_iff [OF ok])
  have dist: "distinct (map fst ?es)" using placed it by (rule distinct_all_entries)
  have cnt: "length (filter (\<lambda>(k, v). P k v) ?es)
               = card {k. \<exists>v. Get m k = Inr ((v, True), m) \<and> P k v}" for P
    using count_distinct_keys [OF dist, of P] by (simp add: mem)
  have run: "Prune ord (pure_pred p :: ('v, 'e, 's) prune_fn) m s =
      ((card {k. \<exists>v. Get m k = Inr ((v, True), m) \<and> p k v},
        card {k. \<exists>v. Get m k = Inr ((v, True), m) \<and> \<not> p k v}, None), ?m1, s)"
    using cnt [of p] cnt [of "\<lambda>k v. \<not> p k v"]
    by (simp add: Prune_run [OF placed it] prune_run_pure ds_def)
  have ok1: "shards_ok ?m1" using ok by (simp add: shards_ok_restrict)
  have placed1: "keys_placed ?m1" using placed by (rule keys_placed_restrict)
  have inds: "key \<in> set ds \<longleftrightarrow> (\<exists>v. entry_of m key = Some v \<and> p key v)" for key
    unfolding ds_def using all_entries_iff [OF ok placed it] by force
  have e1: "entry_of ?m1 key = (if key \<in> set ds then None else entry_of m key)" for key
    using ok by (rule entry_of_restrict)
  have "entry_of ?m1 key = Some val \<longleftrightarrow> entry_of m key = Some val \<and> \<not> p key val"
    for key val
    unfolding e1 inds by auto
  then have get1: "\<forall>key val. Get ?m1 key = Inr ((val, True), ?m1) \<longleftrightarrow>
               Get m key = Inr ((val, True), m) \<and> \<not> p key val"
    by (simp only: Get_present_iff [OF ok1] Get_present_iff [OF ok]) simp
  have "length (filter (\<lambda>(k, v). p k v) ?es) + length (filter (\<lambda>(k, v). \<not> p k v) ?es)
          = length ?es"
    using sum_length_filter_compl [of "\<lambda>(k, v). p k v" ?es] by (simp add: case_prod_unfold)
  then have total: "card {k. \<exists>v. Get m k = Inr ((v, True), m) \<and> p k v}
              + card {k. \<exists>v. Get m k = Inr ((v, True), m) \<and> \<not> p k v} = Len m"
    using cnt [of p] cnt [of "\<lambda>k v. \<not> p k v"] Len_all_entries [OF it] by simp
  show ?thesis using run ok1 placed1 get1 total by blast
qed

text \<open>
  Claim C4. Let the callback's calls be recorded while \<open>Prune\<close> runs, and suppose that a
  recorded call returned an error. Then that call is the last one, and \<open>Prune\<close> returns its
  error. The recorded calls are an initial part of the walk over all entries: no call before
  the last returned an error and nothing after it was visited, neither in the same shard nor
  in a later one. The counts are the numbers of earlier calls that answered delete and keep.
  The map returned is the old map without the keys that those calls deleted: what was deleted
  stays deleted and every other entry is as it was. Recording does not change what \<open>Prune\<close>
  returns.
\<close>

theorem Prune_error:
  fixes m :: "('v::zero) hmap"
  assumes ok: "shards_ok m" and placed: "keys_placed m" and it: "iterates ord m"
    and run: "Prune ord (logged_prune_fn f) m (s, []) = ((delNum, nowNum, err), m1, (s', log))"
    and called: "c \<in> set log" and failed: "snd (snd c) = Some e"
  shows "err = Some e \<and> c = last log
    \<and> Prune ord f m s = ((delNum, nowNum, Some e), m1, s')
    \<and> (\<exists>rest. all_entries ord m = map fst log @ rest)
    \<and> (\<forall>c'\<in>set (butlast log). snd (snd c') = None)
    \<and> delNum = length (filter (\<lambda>c'. snd c' = (True, None)) log)
    \<and> nowNum = length (filter (\<lambda>c'. snd c' = (False, None)) log)
    \<and> shards_ok m1 \<and> keys_placed m1
    \<and> ((\<exists>v. ((key, v), (True, None)) \<in> set log) \<longrightarrow> Get m1 key = Inr ((0, False), m1))
    \<and> (\<not> (\<exists>v. ((key, v), (True, None)) \<in> set log) \<and> Get m key = Inr (r, m) \<longrightarrow>
          Get m1 key = Inr (r, m1))"
proof -
  let ?es = "all_entries ord m"
  obtain err' ds n st where r: "prune_run (logged_prune_fn f) ?es (s, []) = (err', ds, n, st)"
    by (metis prod.exhaust)
  have eqs: "delNum = length ds" "nowNum = n" "err' = err" "st = (s', log)"
    "m1 = m\<lparr>datas := map (\<lambda>d. d |` (- set ds)) (datas m)\<rparr>"
    using run r by (simp_all add: Prune_run [OF placed it])
  from prune_run_logged [OF r [unfolded eqs(3,4)]] obtain calls where
    plain: "prune_run f ?es s = (err, ds, n, s')" and
    c: "log = [] @ calls" "\<exists>rest. ?es = map fst calls @ rest"
       "ds = map (\<lambda>c. fst (fst c)) (filter (\<lambda>c. snd c = (True, None)) calls)"
       "n = length (filter (\<lambda>c. snd c = (False, None)) calls)"
       "\<forall>c\<in>set (butlast calls). snd (snd c) = None"
       "case err of
            None \<Rightarrow> map fst calls = ?es \<and> (\<forall>c\<in>set calls. snd (snd c) = None)
          | Some e \<Rightarrow> calls \<noteq> [] \<and> snd (snd (last calls)) = Some e"
    by blast
  have log: "calls = log" using c(1) by simp
  have p4: "\<forall>c'\<in>set (butlast log). snd (snd c') = None" using c(5) log by simp
  have ne: "log \<noteq> []" using called by auto
  have "set log = insert (last log) (set (butlast log))"
    using ne by (metis append_butlast_last_id list.simps(15) rotate1.simps(2) set_rotate1)
  with called failed p4 have last: "c = last log" by auto
  have p0: "err = Some e"
  proof (cases err)
    case None
    with c(6) log called have "snd (snd c) = None" by simp
    with failed show ?thesis by simp
  next
    case (Some e')
    with c(6) log have "snd (snd (last log)) = Some e'" by simp
    with last failed Some show ?thesis by simp
  qed
  have p1: "Prune ord f m s = ((delNum, nowNum, Some e), m1, s')"
    using plain eqs p0 by (simp add: Prune_run [OF placed it])
  have p2: "\<exists>rest. ?es = map fst log @ rest" using c(2) log by simp
  have p5: "delNum = length (filter (\<lambda>c'. snd c' = (True, None)) log)"
    using eqs(1) c(3) log by simp
  have p6: "nowNum = length (filter (\<lambda>c'. snd c' = (False, None)) log)"
    using eqs(2) c(4) log by simp
  have ok1: "shards_ok m1" using ok by (simp add: eqs(5) shards_ok_restrict)
  have placed1: "keys_placed m1" unfolding eqs(5) using placed by (rule keys_placed_restrict)
  have inds: "key \<in> set ds \<longleftrightarrow> (\<exists>v. ((key, v), (True, None)) \<in> set log)"
    unfolding c(3) log by force
  have e1: "entry_of m1 key = (if key \<in> set ds then None else entry_of m key)"
    unfolding eqs(5) using ok by (rule entry_of_restrict)
  have p7: "(\<exists>v. ((key, v), (True, None)) \<in> set log) \<longrightarrow> Get m1 key = Inr ((0, False), m1)"
    using inds e1 by (simp add: Get_eq [OF ok1])
  have p8: "\<not> (\<exists>v. ((key, v), (True, None)) \<in> set log) \<and> Get m key = Inr (r, m) \<longrightarrow>
          Get m1 key = Inr (r, m1)"
    using inds e1 by (simp add: Get_eq [OF ok1] Get_eq [OF ok])
  show ?thesis using p0 last p1 p2 p4 p5 p6 ok1 placed1 p7 p8 by blast
qed

subsection \<open>A worked example\<close>

lemma sample_map_built:
  "\<exists>m1 m2 m3. Set (New sample_hash (Some 2)) ''a'' 1 = Inr m1 \<and> Set m1 ''b'' 5 = Inr m2
     \<and> Set m2 ''c'' 10 = Inr m3 \<and> Set m3 ''d'' 15 = Inr sample_map"
  by (simp add: Set_def getIndex_def shard_at_def set_shard_def New_def trueShards_def
      sample_hash_def sample_map_def Let_def word_sless_alt numeral_2_eq_2)

lemma sample_map_ok:
  "shards_ok sample_map" "keys_placed sample_map" "iterates sample_order sample_map"
    "all_entries sample_order sample_map = [(''d'', 15), (''b'', 5), (''c'', 10), (''a'', 1)]"
proof -
  show "shards_ok sample_map"
    by (simp add: sample_map_def shards_ok_def upt_rec)
  show "keys_placed sample_map"
    by (simp add: sample_map_def keys_placed_def getIndex_def sample_hash_def
        less_Suc_eq numeral_2_eq_2 nth_Cons')
  show "iterates sample_order sample_map"
    by (simp add: sample_map_def iterates_def sample_order_def List.map_filter_def
        less_Suc_eq numeral_2_eq_2 nth_Cons')
  show "all_entries sample_order sample_map = [(''d'', 15), (''b'', 5), (''c'', 10), (''a'', 1)]"
    by (simp add: sample_map_def all_entries_def sample_order_def List.map_filter_def upt_rec)
qed

lemma sample_map_Get:
  "Get sample_map key = Inr ((v, True), sample_map) \<longleftrightarrow>
     (key, v) \<in> {(''d'', 15), (''b'', 5), (''c'', 10), (''a'', 1)}"
  using all_entries_iff [OF sample_map_ok(1,2,3), of key v]
  by (simp add: Get_present_iff [OF sample_map_ok(1)] sample_map_ok(4))

theorem Prune_pure_witness:
  "shards_ok sample_map \<and> keys_placed sample_map \<and> iterates sample_order sample_map
   \<and> (\<exists>m1. Prune sample_order (pure_pred (\<lambda>key v. v < 10) :: (int, string, unit) prune_fn)
                sample_map ()
              = ((2, 2, None), m1, ())
        \<and> (\<forall>key val. Get m1 key = Inr ((val, True), m1) \<longleftrightarrow>
               (key, val) \<in> {(''c'', 10), (''d'', 15)})
        \<and> Get m1 ''a'' = Inr ((0, False), m1) \<and> Get m1 ''b'' = Inr ((0, False), m1)
        \<and> Get m1 ''c'' = Inr ((10, True), m1) \<and> Get m1 ''d'' = Inr ((15, True), m1))"
proof -
  let ?p = "\<lambda>(key::string) (v::int). v < 10"
  have "{k. \<exists>v. Get sample_map k = Inr ((v, True), sample_map) \<and> v < 10} = {''a'', ''b''}"
    by (auto simp: sample_map_Get)
  then have del: "card {k. \<exists>v. Get sample_map k = Inr ((v, True), sample_map) \<and> v < 10} = 2"
    by simp
  have "{k. \<exists>v. Get sample_map k = Inr ((v, True), sample_map) \<and> \<not> v < 10} = {''c'', ''d''}"
    by (auto simp: sample_map_Get)
  then have keep: "card {k. \<exists>v. Get sample_map k = Inr ((v, True), sample_map) \<and> \<not> v < 10} = 2"
    by simp
  obtain m1 where m1:
    "Prune sample_order (pure_pred ?p :: (int, string, unit) prune_fn) sample_map ()
       = ((2, 2, None), m1, ())" "shards_ok m1"
    "\<forall>key val. Get m1 key = Inr ((val, True), m1) \<longleftrightarrow>
        Get sample_map key = Inr ((val, True), sample_map) \<and> \<not> val < 10"
    using Prune_pure [where ?'e = string, OF sample_map_ok(1,2,3), where p = ?p and s = "()"]
    unfolding del keep by blast
  have present: "Get m1 ''c'' = Inr ((10, True), m1)" "Get m1 ''d'' = Inr ((15, True), m1)"
    using m1(3) by (simp_all add: sample_map_Get)
  have gone: "\<not> Get m1 ''a'' = Inr ((val, True), m1)" "\<not> Get m1 ''b'' = Inr ((val, True), m1)"
    for val
    using m1(3) by (simp_all add: sample_map_Get)
  have "entry_of m1 ''a'' = None"
    using gone(1) by (cases "entry_of m1 ''a''") (auto simp: Get_present_iff [OF m1(2)])
  moreover have "entry_of m1 ''b'' = None"
    using gone(2) by (cases "entry_of m1 ''b''") (auto simp: Get_present_iff [OF m1(2)])
  ultimately have absent: "Get m1 ''a'' = Inr ((0, False), m1)" "Get m1 ''b'' = Inr ((0, False), m1)"
    by (simp_all add: Get_absent_iff [OF m1(2)])
  have exactly: "\<forall>key val. Get m1 key = Inr ((val, True), m1) \<longleftrightarrow>
      (key, val) \<in> {(''c'', 10), (''d'', 15)}"
  proof (intro allI)
    fix key val
    have "Get m1 key = Inr ((val, True), m1) \<longleftrightarrow>
        Get sample_map key = Inr ((val, True), sample_map) \<and> \<not> val < 10"
      using m1(3) by blast
    also have "\<dots> \<longleftrightarrow>
        (key, val) \<in> {(''d'', 15), (''b'', 5), (''c'', 10), (''a'', 1)} \<and> \<not> val < 10"
      by (simp only: sample_map_Get)
    also have "\<dots> \<longleftrightarrow> (key, val) \<in> {(''c'', 10), (''d'', 15)}"
      by auto
    finally show "Get m1 key = Inr ((val, True), m1) \<longleftrightarrow>
        (key, val) \<in> {(''c'', 10), (''d'', 15)}" .
  qed
  show ?thesis using sample_map_ok(1,2,3) m1(1) exactly present absent by blast
qed


theorem Prune_error_witness:
  "shards_ok sample_map \<and> keys_placed sample_map \<and> iterates sample_order sample_map
   \<and> all_entries sample_order sample_map = [(''d'', 15), (''b'', 5), (''c'', 10), (''a'', 1)]
   \<and> (\<exists>m1. Prune sample_order (logged_prune_fn stop_at_ten) sample_map ((), [])
              = ((1, 1, Some ''stop''), m1,
                 ((), [((''d'', 15), (False, None)), ((''b'', 5), (True, None)),
                       ((''c'', 10), (False, Some ''stop''))]))
        \<and> Prune sample_order stop_at_ten sample_map () = ((1, 1, Some ''stop''), m1, ())
        \<and> Get m1 ''b'' = Inr ((0, False), m1) \<and> Get m1 ''a'' = Inr ((1, True), m1)
        \<and> Get m1 ''c'' = Inr ((10, True), m1) \<and> Get m1 ''d'' = Inr ((15, True), m1))"
proof -
  let ?c = "((''c'', 10::int), (False, Some ''stop''))"
  let ?log = "[((''d'', 15::int), (False, None)), ((''b'', 5), (True, None)), ?c]"
  let ?m1 = "sample_map\<lparr>datas := map (\<lambda>d. d |` (- set [''b''])) (datas sample_map)\<rparr>"
  have run: "Prune sample_order (logged_prune_fn stop_at_ten) sample_map ((), [])
               = ((1, 1, Some ''stop''), ?m1, ((), ?log))"
    by (simp add: Prune_run [OF sample_map_ok(2,3)] sample_map_ok(4) logged_prune_fn_def
        stop_at_ten_def)
  have called: "?c \<in> set ?log" and failed: "snd (snd ?c) = Some ''stop''" by simp_all
  note concl = Prune_error [OF sample_map_ok(1,2,3) run called failed]
  have plain: "Prune sample_order stop_at_ten sample_map () = ((1, 1, Some ''stop''), ?m1, ())"
    using concl by blast
  have b: "Get ?m1 ''b'' = Inr ((0, False), ?m1)"
    using concl [where key = "''b''"] by simp
  have keep: "Get ?m1 key = Inr ((v, True), ?m1)"
    if "key \<noteq> ''b''" "Get sample_map key = Inr ((v, True), sample_map)" for key v
    using concl [where key = key and r = "(v, True)"] that by simp
  have "Get ?m1 ''a'' = Inr ((1, True), ?m1)" "Get ?m1 ''c'' = Inr ((10, True), ?m1)"
    "Get ?m1 ''d'' = Inr ((15, True), ?m1)"
    by (rule keep; simp add: sample_map_Get)+
  with sample_map_ok run plain b show ?thesis by blast
qed

section \<open>Range\<close>

text \<open>
  The calls of a visitor, recorded by \<open>logged_visitor\<close>: the inner loop first, then the
  loop over the shards, by induction on the list of shard indices still to be walked.
\<close>

lemma map_after_Nil [simp]: "map_after m [] = m"
  by (simp add: map_after_def)

lemma map_after_Cons: "map_after m (c # cs) = map_after (c_after c) cs"
  by (simp add: map_after_def)

lemma map_after_append: "map_after m (xs @ ys) = map_after (map_after m xs) ys"
  by (simp add: map_after_def)

lemma chained_append:
  "chained m (xs @ ys) \<longleftrightarrow> chained m xs \<and> chained (map_after m xs) ys"
  by (induction xs arbitrary: m) (simp_all add: map_after_Cons)

lemma visited_simps [simp]:
  "visited [] = []" "visited (c # cs) = (c_key c, c_val c) # visited cs"
  "visited (xs @ ys) = visited xs @ visited ys"
  by (simp_all add: visited_def)

lemma map_at_0 [simp]: "map_at m segs 0 = m"
  by (simp add: map_at_def)

lemma map_at_Suc: "map_at m (seg # segs) (Suc i) = map_at (map_after m seg) segs i"
  by (simp add: map_at_def map_after_append)

lemma keeps_shardsD:
  "keeps_shards f \<Longrightarrow> f key val (m, s) = (b, m', s') \<Longrightarrow>
     length (datas m') = length (datas m) \<and> seed m' = seed m"
  unfolding keeps_shards_def by (metis fst_conv snd_conv)

lemma Range_entries_length:
  assumes "keeps_shards f" "Range_entries f es (m, s) = (b, m', s')"
  shows "length (datas m') = length (datas m)"
  using assms(2)
proof (induction es arbitrary: m s)
  case Nil
  then show ?case by simp
next
  case (Cons kv es)
  obtain key val where kv: "kv = (key, val)" by (cases kv)
  obtain b1 m1 s1 where f: "f key val (m, s) = (b1, m1, s1)" by (metis prod.exhaust)
  have len: "length (datas m1) = length (datas m)"
    using keeps_shardsD [OF assms(1) f] by simp
  show ?case
  proof (cases b1)
    case False
    with Cons.prems kv f have "m' = m1" by simp
    with len show ?thesis by simp
  next
    case True
    with Cons.prems kv f have "Range_entries f es (m1, s1) = (b, m', s')" by simp
    from Cons.IH [OF this] len show ?thesis by simp
  qed
qed

lemma Range_entries_logged:
  assumes "Range_entries (logged_visitor f) es (m, s, log) = (b, m', s', log')"
  shows "Range_entries f es (m, s) = (b, m', s') \<and>
     (\<exists>calls. log' = log @ calls \<and> (\<exists>rest. es = visited calls @ rest)
        \<and> (\<forall>c\<in>set (butlast calls). c_answer c)
        \<and> (if b then visited calls = es \<and> (\<forall>c\<in>set calls. c_answer c)
            else calls \<noteq> [] \<and> \<not> c_answer (last calls))
        \<and> chained m calls \<and> m' = map_after m calls)"
  using assms
proof (induction es arbitrary: m s log)
  case Nil
  then show ?case by simp
next
  case (Cons kv es)
  obtain key val where kv: "kv = (key, val)" by (cases kv)
  obtain b1 m1 s1 where f: "f key val (m, s) = (b1, m1, s1)" by (metis prod.exhaust)
  let ?c = "\<lparr>c_key = key, c_val = val, c_before = m, c_answer = b1, c_after = m1\<rparr>"
  have lf: "logged_visitor f key val (m, s, log) = (b1, m1, s1, log @ [?c])"
    using f by (simp add: logged_visitor_def)
  show ?case
  proof (cases b1)
    case False
    have res: "b = False" "m' = m1" "s' = s1" "log' = log @ [?c]"
      using Cons.prems lf False kv by auto
    have run: "Range_entries f (kv # es) (m, s) = (b, m', s')"
      using f False kv res by simp
    have "log' = log @ [?c] \<and> (\<exists>rest. kv # es = visited [?c] @ rest)
        \<and> (\<forall>c\<in>set (butlast [?c]). c_answer c)
        \<and> (if b then visited [?c] = kv # es \<and> (\<forall>c\<in>set [?c]. c_answer c)
            else [?c] \<noteq> [] \<and> \<not> c_answer (last [?c]))
        \<and> chained m [?c] \<and> m' = map_after m [?c]"
      using res False kv by (simp add: map_after_def)
    with run show ?thesis by blast
  next
    case True
    have r2: "Range_entries (logged_visitor f) es (m1, s1, log @ [?c]) = (b, m', s', log')"
      using Cons.prems lf True kv by simp
    from Cons.IH [OF r2] obtain calls where
      run2: "Range_entries f es (m1, s1) = (b, m', s')" and
      c: "log' = (log @ [?c]) @ calls" "\<exists>rest. es = visited calls @ rest"
         "\<forall>c\<in>set (butlast calls). c_answer c"
         "if b then visited calls = es \<and> (\<forall>c\<in>set calls. c_answer c)
          else calls \<noteq> [] \<and> \<not> c_answer (last calls)"
         "chained m1 calls" "m' = map_after m1 calls"
      by blast
    have run: "Range_entries f (kv # es) (m, s) = (b, m', s')"
      using f True kv run2 by simp
    have "log' = log @ (?c # calls) \<and> (\<exists>rest. kv # es = visited (?c # calls) @ rest)
        \<and> (\<forall>c\<in>set (butlast (?c # calls)). c_answer c)
        \<and> (if b then visited (?c # calls) = kv # es \<and> (\<forall>c\<in>set (?c # calls). c_answer c)
            else ?c # calls \<noteq> [] \<and> \<not> c_answer (last (?c # calls)))
        \<and> chained m (?c # calls) \<and> m' = map_after m (?c # calls)"
      using c True kv by (cases b) (auto simp: map_after_Cons)
    with run show ?thesis by blast
  qed
qed

lemma walk_at_0 [simp]: "walk_at ord (i # is) m segs 0 = ord i (datas m ! i)"
  by (simp add: walk_at_def)

lemma walk_at_Suc [simp]:
  "walk_at ord (i # is) m (seg # segs) (Suc k) = walk_at ord is (map_after m seg) segs k"
  by (simp add: walk_at_def map_at_Suc)

lemma Range_entries_calls_length:
  assumes keeps: "keeps_shards f"
    and run: "Range_entries (logged_visitor f) es (m, s, log) = (b, m', s', log @ calls)"
  shows "\<forall>c\<in>set calls. length (datas (c_after c)) = length (datas m) \<and> seed (c_after c) = seed m"
  using run
proof (induction es arbitrary: m s log calls)
  case Nil
  then show ?case by simp
next
  case (Cons kv es)
  obtain key val where kv: "kv = (key, val)" by (cases kv)
  obtain b1 m1 s1 where f: "f key val (m, s) = (b1, m1, s1)" by (metis prod.exhaust)
  let ?c = "\<lparr>c_key = key, c_val = val, c_before = m, c_answer = b1, c_after = m1\<rparr>"
  have lf: "logged_visitor f key val (m, s, log) = (b1, m1, s1, log @ [?c])"
    using f by (simp add: logged_visitor_def)
  have len: "length (datas m1) = length (datas m) \<and> seed m1 = seed m"
    using keeps f by (rule keeps_shardsD)
  show ?case
  proof (cases b1)
    case False
    have "log @ calls = log @ [?c]" using Cons.prems lf False kv by auto
    then have "calls = [?c]" by simp
    then show ?thesis using len by simp
  next
    case True
    have r2: "Range_entries (logged_visitor f) es (m1, s1, log @ [?c]) = (b, m', s', log @ calls)"
      using Cons.prems lf True kv by simp
    from Range_entries_logged [OF r2] obtain more where "log @ calls = (log @ [?c]) @ more"
      by blast
    then have calls: "calls = ?c # more" by simp
    with r2 have "Range_entries (logged_visitor f) es (m1, s1, log @ [?c])
        = (b, m', s', (log @ [?c]) @ more)" by simp
    from Cons.IH [OF this] have
      "\<forall>c\<in>set more. length (datas (c_after c)) = length (datas m1) \<and> seed (c_after c) = seed m1" .
    then show ?thesis using calls len by simp
  qed
qed

lemma Range_shards_logged:
  assumes keeps: "keeps_shards f" and inr: "\<forall>i\<in>set is. i < length (datas m)"
  shows "\<exists>m' s' segs.
      Range_shards ord (logged_visitor f) is (m, s, log) = Inr (m', s', log @ concat segs)
    \<and> Range_shards ord f is (m, s) = Inr (m', s')
    \<and> length (datas m') = length (datas m)
    \<and> length segs \<le> length is
    \<and> (\<forall>k<length segs. \<exists>rest. walk_at ord is m segs k = visited (segs ! k) @ rest)
    \<and> (\<forall>k. Suc k < length segs \<longrightarrow> visited (segs ! k) = walk_at ord is m segs k)
    \<and> ((\<forall>c\<in>set (concat segs). c_answer c) \<longrightarrow>
          length segs = length is \<and> (\<forall>k<length segs. visited (segs ! k) = walk_at ord is m segs k))
    \<and> (\<forall>c\<in>set (butlast (concat segs)). c_answer c)
    \<and> chained m (concat segs)
    \<and> m' = map_after m (concat segs)
    \<and> (\<forall>c\<in>set (concat segs).
          length (datas (c_after c)) = length (datas m) \<and> seed (c_after c) = seed m)"
  using inr
proof (induction "is" arbitrary: m s log)
  case Nil
  have "Range_shards ord (logged_visitor f) [] (m, s, log) = Inr (m, s, log @ concat [])
    \<and> Range_shards ord f [] (m, s) = Inr (m, s)
    \<and> length (datas m) = length (datas m)
    \<and> length ([] :: 'a call list list) \<le> length ([] :: nat list)
    \<and> (\<forall>k<length ([] :: 'a call list list). \<exists>rest. walk_at ord [] m [] k = visited ([] ! k) @ rest)
    \<and> (\<forall>k. Suc k < length ([] :: 'a call list list) \<longrightarrow> visited ([] ! k) = walk_at ord [] m [] k)
    \<and> ((\<forall>c\<in>set (concat ([] :: 'a call list list)). c_answer c) \<longrightarrow>
          length ([] :: 'a call list list) = length ([] :: nat list)
          \<and> (\<forall>k<length ([] :: 'a call list list). visited ([] ! k) = walk_at ord [] m [] k))
    \<and> (\<forall>c\<in>set (butlast (concat ([] :: 'a call list list))). c_answer c)
    \<and> chained m (concat [])
    \<and> m = map_after m (concat [])
    \<and> (\<forall>c\<in>set (concat ([] :: 'a call list list)).
          length (datas (c_after c)) = length (datas m) \<and> seed (c_after c) = seed m)"
    by simp
  then show ?case by blast
next
  case (Cons i "is")
  let ?es = "ord i (datas m ! i)"
  have i: "i < length (datas m)" using Cons.prems by simp
  obtain b m1 s1 log1 where
    inner: "Range_entries (logged_visitor f) ?es (m, s, log) = (b, m1, s1, log1)"
    by (metis prod.exhaust)
  from Range_entries_logged [OF inner] obtain calls where
    plain: "Range_entries f ?es (m, s) = (b, m1, s1)" and
    c: "log1 = log @ calls" "\<exists>rest. ?es = visited calls @ rest"
       "\<forall>c\<in>set (butlast calls). c_answer c"
       "if b then visited calls = ?es \<and> (\<forall>c\<in>set calls. c_answer c)
        else calls \<noteq> [] \<and> \<not> c_answer (last calls)"
       "chained m calls" "m1 = map_after m calls"
    by blast
  have len: "length (datas m1) = length (datas m)"
    using keeps plain by (rule Range_entries_length)
  have clen: "\<forall>c\<in>set calls.
      length (datas (c_after c)) = length (datas m) \<and> seed (c_after c) = seed m"
    using keeps inner unfolding c(1) by (rule Range_entries_calls_length)
  have sd: "seed m1 = seed m"
  proof (cases "calls = []")
    case True
    then show ?thesis using c(6) by simp
  next
    case False
    then have "last calls \<in> set calls" by (rule last_in_set)
    then show ?thesis using clen c(6) False by (simp add: map_after_def)
  qed
  show ?case
  proof (cases b)
    case False
    have stop: "calls \<noteq> []" "\<not> c_answer (last calls)" using c(4) False by simp_all
    then have notall: "\<not> (\<forall>c\<in>set calls. c_answer c)" using last_in_set by blast
    have r1: "Range_shards ord (logged_visitor f) (i # is) (m, s, log)
                = Inr (m1, s1, log @ concat [calls])"
      using i inner False c(1) by simp
    have r2: "Range_shards ord f (i # is) (m, s) = Inr (m1, s1)"
      using i plain False by simp
    have r4: "length [calls] \<le> length (i # is)" by simp
    have r5: "\<forall>k<length [calls]. \<exists>rest. walk_at ord (i # is) m [calls] k = visited ([calls] ! k) @ rest"
      using c(2) by simp
    have r6: "\<forall>k. Suc k < length [calls] \<longrightarrow> visited ([calls] ! k) = walk_at ord (i # is) m [calls] k"
      by simp
    have r7: "(\<forall>c\<in>set (concat [calls]). c_answer c) \<longrightarrow>
          length [calls] = length (i # is)
          \<and> (\<forall>k<length [calls]. visited ([calls] ! k) = walk_at ord (i # is) m [calls] k)"
      using notall by auto
    have r8: "\<forall>c\<in>set (butlast (concat [calls])). c_answer c" using c(3) by simp
    have r9: "chained m (concat [calls])" using c(5) by simp
    have r10: "m1 = map_after m (concat [calls])" using c(6) by simp
    have r11: "\<forall>c\<in>set (concat [calls]).
        length (datas (c_after c)) = length (datas m) \<and> seed (c_after c) = seed m"
      using clen by simp
    show ?thesis using r1 r2 len r4 r5 r6 r7 r8 r9 r10 r11 by blast
  next
    case True
    have full: "visited calls = ?es" "\<forall>c\<in>set calls. c_answer c" using c(4) True by simp_all
    have inr1: "\<forall>j\<in>set is. j < length (datas m1)" using Cons.prems len by simp
    from Cons.IH [OF inr1, of s1 log1] obtain m' s' segs where
      ih: "Range_shards ord (logged_visitor f) is (m1, s1, log1) = Inr (m', s', log1 @ concat segs)"
          "Range_shards ord f is (m1, s1) = Inr (m', s')"
          "length (datas m') = length (datas m1)"
          "length segs \<le> length is"
          "\<forall>k<length segs. \<exists>rest. walk_at ord is m1 segs k = visited (segs ! k) @ rest"
          "\<forall>k. Suc k < length segs \<longrightarrow> visited (segs ! k) = walk_at ord is m1 segs k"
          "(\<forall>c\<in>set (concat segs). c_answer c) \<longrightarrow>
              length segs = length is
              \<and> (\<forall>k<length segs. visited (segs ! k) = walk_at ord is m1 segs k)"
          "\<forall>c\<in>set (butlast (concat segs)). c_answer c"
          "chained m1 (concat segs)"
          "m' = map_after m1 (concat segs)"
          "\<forall>c\<in>set (concat segs).
              length (datas (c_after c)) = length (datas m1) \<and> seed (c_after c) = seed m1"
      by blast
    let ?segs = "calls # segs"
    have r1: "Range_shards ord (logged_visitor f) (i # is) (m, s, log)
                = Inr (m', s', log @ concat ?segs)"
      using i inner True ih(1) c(1) by simp
    have r2: "Range_shards ord f (i # is) (m, s) = Inr (m', s')"
      using i plain True ih(2) by simp
    have r3: "length (datas m') = length (datas m)" using ih(3) len by simp
    have r4: "length ?segs \<le> length (i # is)" using ih(4) by simp
    have r5: "\<forall>k<length ?segs. \<exists>rest. walk_at ord (i # is) m ?segs k = visited (?segs ! k) @ rest"
    proof (intro allI impI)
      fix k assume k: "k < length ?segs"
      show "\<exists>rest. walk_at ord (i # is) m ?segs k = visited (?segs ! k) @ rest"
      proof (cases k)
        case 0
        then show ?thesis using full(1) by simp
      next
        case (Suc j)
        then have "j < length segs" using k by simp
        with ih(5) have "\<exists>rest. walk_at ord is m1 segs j = visited (segs ! j) @ rest" by blast
        then show ?thesis using Suc c(6) by simp
      qed
    qed
    have r6: "\<forall>k. Suc k < length ?segs \<longrightarrow> visited (?segs ! k) = walk_at ord (i # is) m ?segs k"
    proof (intro allI impI)
      fix k assume k: "Suc k < length ?segs"
      show "visited (?segs ! k) = walk_at ord (i # is) m ?segs k"
      proof (cases k)
        case 0
        then show ?thesis using full(1) by simp
      next
        case (Suc j)
        then have "Suc j < length segs" using k by simp
        with ih(6) have "visited (segs ! j) = walk_at ord is m1 segs j" by blast
        then show ?thesis using Suc c(6) by simp
      qed
    qed
    have r7: "(\<forall>c\<in>set (concat ?segs). c_answer c) \<longrightarrow>
          length ?segs = length (i # is)
          \<and> (\<forall>k<length ?segs. visited (?segs ! k) = walk_at ord (i # is) m ?segs k)"
    proof (intro impI conjI allI)
      assume all: "\<forall>c\<in>set (concat ?segs). c_answer c"
      then have "\<forall>c\<in>set (concat segs). c_answer c" by simp
      with ih(7) have a: "length segs = length is"
        and b: "\<forall>k<length segs. visited (segs ! k) = walk_at ord is m1 segs k" by blast+
      show "length ?segs = length (i # is)" using a by simp
      fix k assume k: "k < length ?segs"
      show "visited (?segs ! k) = walk_at ord (i # is) m ?segs k"
      proof (cases k)
        case 0
        then show ?thesis using full(1) by simp
      next
        case (Suc j)
        then have "j < length segs" using k by simp
        with b have "visited (segs ! j) = walk_at ord is m1 segs j" by blast
        then show ?thesis using Suc c(6) by simp
      qed
    qed
    have r8: "\<forall>c\<in>set (butlast (concat ?segs)). c_answer c"
    proof -
      define rest where "rest = concat segs"
      have tl: "\<forall>c\<in>set (butlast rest). c_answer c" using ih(8) by (simp only: rest_def)
      have "\<forall>c\<in>set (butlast (calls @ rest)). c_answer c"
        using c(3) full(2) tl by (cases "rest = []") (auto simp: butlast_append)
      then show ?thesis by (simp only: concat.simps rest_def)
    qed
    have r9: "chained m (concat ?segs)" using c(5) c(6) ih(9) by (simp add: chained_append)
    have r10: "m' = map_after m (concat ?segs)" using ih(10) c(6) by (simp add: map_after_append)
    have r11: "\<forall>c\<in>set (concat ?segs).
        length (datas (c_after c)) = length (datas m) \<and> seed (c_after c) = seed m"
      using clen ih(11) len sd by auto
    show ?thesis using r1 r2 r3 r4 r5 r6 r7 r8 r9 r10 r11 by blast
  qed
qed

lemma Range_shards_total:
  assumes "keeps_shards f" "\<forall>i\<in>set is. i < length (datas m)"
  shows "\<exists>m' s'. Range_shards ord f is (m, s) = Inr (m', s') \<and> length (datas m') = length (datas m)"
  using Range_shards_logged [OF assms, where ord = ord and s = s and log = "[]"] by blast

lemma Range_entries_private:
  "\<exists>b s'. Range_entries (private_visitor g) es (m, s) = (b, m, s')"
proof (induction es arbitrary: s)
  case Nil
  show ?case by auto
next
  case (Cons kv es)
  obtain key val where kv: "kv = (key, val)" by (cases kv)
  obtain b1 s1 where g: "g key val s = (b1, s1)" by (cases "g key val s")
  show ?case using Cons.IH [of s1] kv g by (cases b1) (auto simp: private_visitor_def)
qed

lemma Range_shards_private:
  assumes "\<forall>i\<in>set is. i < length (datas m)"
  shows "\<exists>s'. Range_shards ord (private_visitor g) is (m, s) = Inr (m, s')"
  using assms
proof (induction "is" arbitrary: s)
  case Nil
  show ?case by simp
next
  case (Cons i "is")
  obtain b s1 where r: "Range_entries (private_visitor g) (ord i (datas m ! i)) (m, s) = (b, m, s1)"
    using Range_entries_private [of g "ord i (datas m ! i)" m s] by blast
  have "\<forall>j\<in>set is. j < length (datas m)" using Cons.prems by simp
  from Cons.IH [OF this, of s1] obtain s' where
    "Range_shards ord (private_visitor g) is (m, s1) = Inr (m, s')" by blast
  then show ?case using r Cons.prems by (cases b) simp_all
qed

text \<open>
  The mutating methods leave the number of shards and the seed as they are, so a visitor
  that calls them keeps both.
\<close>

lemma methods_keep_shards:
  "Set m key val = Inr m1 \<Longrightarrow> length (datas m1) = length (datas m) \<and> seed m1 = seed m"
  "SetWithNotExist m key val = Inr (r, m1) \<Longrightarrow>
     length (datas m1) = length (datas m) \<and> seed m1 = seed m"
  "Delete m key = Inr (b, m1) \<Longrightarrow> length (datas m1) = length (datas m) \<and> seed m1 = seed m"
  "DeleteIf m key delIf s = Inr (b, m1, s') \<Longrightarrow>
     length (datas m1) = length (datas m) \<and> seed m1 = seed m"
  by (auto simp: Set_def SetWithNotExist_def Delete_def DeleteIf_def Let_def set_shard_def
      split: sum.splits option.splits prod.splits bool.splits)

lemma keeps_shards_delete_at: "keeps_shards (delete_at trigger victim)"
  by (auto simp: keeps_shards_def delete_at_def dest: methods_keep_shards(3) split: sum.splits)

lemma getIndex_same_shape:
  "length (datas m') = length (datas m) \<Longrightarrow> seed m' = seed m \<Longrightarrow> getIndex m' key = getIndex m key"
  by (simp add: getIndex_def)

lemma unchanged_map_after:
  "chained m calls \<Longrightarrow> \<forall>c\<in>set calls. c_after c = c_before c \<Longrightarrow> map_after m calls = m"
  by (induction calls arbitrary: m) (simp_all add: map_after_Cons)

lemma keeps_shards_private: "keeps_shards (private_visitor g)"
  by (simp add: keeps_shards_def private_visitor_def split: prod.splits)

lemma map_at_cases:
  "map_at m segs i = m \<or> (\<exists>c\<in>set (concat segs). map_at m segs i = c_after c)"
proof (cases "concat (take i segs) = []")
  case True
  then show ?thesis by (simp add: map_at_def map_after_def)
next
  case False
  then have "last (concat (take i segs)) \<in> set (concat (take i segs))" by (rule last_in_set)
  also have "set (concat (take i segs)) \<subseteq> set (concat segs)"
    using set_take_subset [of i segs] by auto
  finally show ?thesis using False by (auto simp: map_at_def map_after_def)
qed

lemma snapshot_content:
  fixes M :: "('v::zero) hmap"
  assumes ok: "shards_ok M" and i: "i < length (datas M)"
    and it: "iterates ord M" and placed: "keys_placed M"
  shows "(key, val) \<in> set (ord i (datas M ! i)) \<longleftrightarrow>
           getIndex M key = int i \<and> Get M key = Inr ((val, True), M)"
proof
  assume "(key, val) \<in> set (ord i (datas M ! i))"
  then have v: "(datas M ! i) key = Some val" using iterates_shard(2) [OF it i] by simp
  then have "key \<in> dom (datas M ! i)" by blast
  then have g: "getIndex M key = int i" using placed i by (simp add: keys_placed_def)
  then have "entry_of M key = Some val" using v by (simp add: entry_of_def)
  then show "getIndex M key = int i \<and> Get M key = Inr ((val, True), M)"
    using g by (simp add: Get_present_iff [OF ok])
next
  assume a: "getIndex M key = int i \<and> Get M key = Inr ((val, True), M)"
  then have "entry_of M key = Some val" by (simp add: Get_present_iff [OF ok])
  then have "(datas M ! i) key = Some val" using a by (simp add: entry_of_def)
  then show "(key, val) \<in> set (ord i (datas M ! i))" using iterates_shard(2) [OF it i] by simp
qed

text \<open>
  Claim C8, for a visitor that may change the map while \<open>Range\<close> runs, as long as it
  keeps the number of shards and the seed. \<open>Range\<close> does not panic, and recording the
  visitor's calls does not change what it returns. The recorded calls fall into one list per
  shard that the loop reached, in the order of the shards. The pairs of the list for shard
  \<open>i\<close> are an initial part of the walk over the copy of shard \<open>i\<close>, which is taken from
  the map as it stands when the loop reaches \<open>i\<close>; they are the whole walk if the loop went
  on to a later shard, and for every shard if no call answered \<open>False\<close>, in which case
  every shard was reached. Every call but the last answered \<open>True\<close>: after an answer
  \<open>False\<close> no pair of that shard or of a later shard is visited. \<open>Range\<close> itself writes
  nothing: the first call finds the map \<open>Range\<close> was given, every later call finds the map
  that the call before it left, and \<open>Range\<close> returns the map that the last call left, which
  is the map it was given if no call changed the map. The map as it stands when the loop
  reaches shard \<open>i\<close> has a valid shard count; and if the iteration order lists each of its
  entries once and each of its keys sits in its shard, then the walk over the copy of shard
  \<open>i\<close> has no key twice and holds the pairs \<open>(key, val)\<close> such that \<open>i\<close> is the shard of
  \<open>key\<close> and \<open>Get\<close> finds \<open>val\<close> for \<open>key\<close> at that moment.
\<close>

theorem Range_visits:
  fixes m :: "('v::zero) hmap"
  assumes ok: "shards_ok m" and keeps: "keeps_shards f"
  shows "\<exists>m' s' log segs.
      Range_hmap ord (logged_visitor f) m (s, []) = Inr (m', s', log)
    \<and> Range_hmap ord f m s = Inr (m', s')
    \<and> log = concat segs \<and> length segs \<le> ShardCount m
    \<and> (\<forall>i<length segs. \<exists>rest. ord i (snapshot m segs i) = visited (segs ! i) @ rest)
    \<and> (\<forall>i. Suc i < length segs \<longrightarrow> visited (segs ! i) = ord i (snapshot m segs i))
    \<and> ((\<forall>c\<in>set log. c_answer c) \<longrightarrow>
          length segs = ShardCount m
          \<and> (\<forall>i<length segs. visited (segs ! i) = ord i (snapshot m segs i)))
    \<and> (\<forall>c\<in>set (butlast log). c_answer c)
    \<and> chained m log \<and> m' = map_after m log
    \<and> ((\<forall>c\<in>set log. c_after c = c_before c) \<longrightarrow> m' = m)
    \<and> (\<forall>i<length segs.
          shards_ok (map_at m segs i)
        \<and> (iterates ord (map_at m segs i) \<and> keys_placed (map_at m segs i) \<longrightarrow>
             distinct (map fst (ord i (snapshot m segs i)))
           \<and> (\<forall>key val. (key, val) \<in> set (ord i (snapshot m segs i)) \<longleftrightarrow>
                 getIndex m key = int i
               \<and> Get (map_at m segs i) key = Inr ((val, True), map_at m segs i))))"
proof -
  let ?is = "[0..<length (datas m)]"
  have inr: "\<forall>i\<in>set ?is. i < length (datas m)" by simp
  from Range_shards_logged [OF keeps inr, where ord = ord and s = s and log = "[]"]
  obtain m' s' segs where
    run: "Range_shards ord (logged_visitor f) ?is (m, s, []) = Inr (m', s', [] @ concat segs)"
      and plain: "Range_shards ord f ?is (m, s) = Inr (m', s')"
      and n: "length segs \<le> length ?is"
      and pre: "\<forall>k<length segs. \<exists>rest. walk_at ord ?is m segs k = visited (segs ! k) @ rest"
      and full: "\<forall>k. Suc k < length segs \<longrightarrow> visited (segs ! k) = walk_at ord ?is m segs k"
      and all: "(\<forall>c\<in>set (concat segs). c_answer c) \<longrightarrow>
          length segs = length ?is
          \<and> (\<forall>k<length segs. visited (segs ! k) = walk_at ord ?is m segs k)"
      and stop: "\<forall>c\<in>set (butlast (concat segs)). c_answer c"
      and chain: "chained m (concat segs)"
      and final: "m' = map_after m (concat segs)"
      and lens: "\<forall>c\<in>set (concat segs).
          length (datas (c_after c)) = length (datas m) \<and> seed (c_after c) = seed m"
    by blast
  have n': "length segs \<le> length (datas m)" using n by simp
  have walk: "walk_at ord ?is m segs k = ord k (snapshot m segs k)" if "k < length segs" for k
    using that n' by (simp add: walk_at_def snapshot_def)
  have len_at: "length (datas (map_at m segs k)) = length (datas m)" for k
    using map_at_cases [of m segs k] lens by auto
  have seed_at: "seed (map_at m segs k) = seed m" for k
    using map_at_cases [of m segs k] lens by auto
  have idx_at: "getIndex (map_at m segs k) key = getIndex m key" for k key
    using len_at [of k] seed_at [of k] by (rule getIndex_same_shape)
  have same: "(\<forall>c\<in>set (concat segs). c_after c = c_before c) \<longrightarrow> m' = m"
    using chain final unchanged_map_after [of m "concat segs"] by blast
  have ok_at: "shards_ok (map_at m segs k)" for k
    using ok len_at [of k] by (simp add: shards_ok_def)
  have p1: "Range_hmap ord (logged_visitor f) m (s, []) = Inr (m', s', concat segs)"
    using run by (simp add: Range_hmap_def)
  have p2: "Range_hmap ord f m s = Inr (m', s')"
    using plain by (simp add: Range_hmap_def)
  have p3: "length segs \<le> ShardCount m" using n' by (simp add: ShardCount_def)
  have p4: "\<forall>i<length segs. \<exists>rest. ord i (snapshot m segs i) = visited (segs ! i) @ rest"
    using pre walk by simp
  have p5: "\<forall>i. Suc i < length segs \<longrightarrow> visited (segs ! i) = ord i (snapshot m segs i)"
    using full walk by simp
  have p6: "(\<forall>c\<in>set (concat segs). c_answer c) \<longrightarrow>
          length segs = ShardCount m
          \<and> (\<forall>i<length segs. visited (segs ! i) = ord i (snapshot m segs i))"
    using all walk by (simp add: ShardCount_def)
  have p7: "\<forall>i<length segs.
          shards_ok (map_at m segs i)
        \<and> (iterates ord (map_at m segs i) \<and> keys_placed (map_at m segs i) \<longrightarrow>
             distinct (map fst (ord i (snapshot m segs i)))
           \<and> (\<forall>key val. (key, val) \<in> set (ord i (snapshot m segs i)) \<longleftrightarrow>
                 getIndex m key = int i
               \<and> Get (map_at m segs i) key = Inr ((val, True), map_at m segs i)))"
  proof (intro allI impI conjI)
    fix i assume i: "i < length segs"
    show "shards_ok (map_at m segs i)" by (rule ok_at)
    assume inv: "iterates ord (map_at m segs i) \<and> keys_placed (map_at m segs i)"
    have i': "i < length (datas (map_at m segs i))" using i n' len_at [of i] by simp
    show "distinct (map fst (ord i (snapshot m segs i)))"
      unfolding snapshot_def using inv i' by (intro iterates_shard(1)) simp_all
    fix key val
    have "(key, val) \<in> set (ord i (datas (map_at m segs i) ! i)) \<longleftrightarrow>
            getIndex (map_at m segs i) key = int i
          \<and> Get (map_at m segs i) key = Inr ((val, True), map_at m segs i)"
      using ok_at [of i] i' inv by (intro snapshot_content) simp_all
    then show "(key, val) \<in> set (ord i (snapshot m segs i)) \<longleftrightarrow>
            getIndex m key = int i
          \<and> Get (map_at m segs i) key = Inr ((val, True), map_at m segs i)"
      by (simp only: snapshot_def idx_at)
  qed
  show ?thesis
    using p1 p2 p3 p4 p5 p6 stop chain final same p7 by blast
qed

theorem Range_visits_witness:
  "shards_ok sample_map \<and> keys_placed sample_map \<and> iterates sample_order sample_map
   \<and> keeps_shards (delete_at ''d'' ''c'' :: (int, nat) visitor)
   \<and> keeps_shards (delete_at ''d'' ''b'' :: (int, nat) visitor)
   \<and> keeps_shards (private_visitor (visit_upto 2))
   \<and> (\<exists>m1 log. Delete sample_map ''c'' = Inr (True, m1)
        \<and> keys_placed m1 \<and> iterates sample_order m1
        \<and> Range_hmap sample_order (logged_visitor (delete_at ''d'' ''c'')) sample_map (0, [])
            = Inr (m1, 3, log)
        \<and> visited log = [(''d'', 15), (''b'', 5), (''a'', 1)]
        \<and> map c_answer log = [True, True, True]
        \<and> Range_hmap sample_order (delete_at ''d'' ''c'') sample_map 0 = Inr (m1, 3))
   \<and> (\<exists>m1 log. Delete sample_map ''b'' = Inr (True, m1)
        \<and> Range_hmap sample_order (logged_visitor (delete_at ''d'' ''b'')) sample_map (0, [])
            = Inr (m1, 4, log)
        \<and> visited log = [(''d'', 15), (''b'', 5), (''c'', 10), (''a'', 1)]
        \<and> map c_answer log = [True, True, True, True]
        \<and> Range_hmap sample_order (delete_at ''d'' ''b'') sample_map 0 = Inr (m1, 4))
   \<and> (\<exists>log. Range_hmap sample_order (logged_visitor (private_visitor (visit_upto 2)))
                 sample_map (0, []) = Inr (sample_map, 2, log)
        \<and> visited log = [(''d'', 15), (''b'', 5)]
        \<and> map c_answer log = [True, False]
        \<and> Range_hmap sample_order (private_visitor (visit_upto 2)) sample_map 0
            = Inr (sample_map, 2))"
proof -
  let ?mc = "\<lparr>datas = [ [''b'' \<mapsto> 5, ''d'' \<mapsto> 15], [''a'' \<mapsto> 1::int]], seed = sample_hash\<rparr>"
  let ?mb = "\<lparr>datas = [ [''d'' \<mapsto> 15], [''a'' \<mapsto> 1, ''c'' \<mapsto> 10::int]], seed = sample_hash\<rparr>"
  let ?logc = "[\<lparr>c_key = ''d'', c_val = 15, c_before = sample_map, c_answer = True, c_after = ?mc\<rparr>,
                \<lparr>c_key = ''b'', c_val = 5, c_before = ?mc, c_answer = True, c_after = ?mc\<rparr>,
                \<lparr>c_key = ''a'', c_val = 1, c_before = ?mc, c_answer = True, c_after = ?mc\<rparr>]"
  let ?logb = "[\<lparr>c_key = ''d'', c_val = 15, c_before = sample_map, c_answer = True, c_after = ?mb\<rparr>,
                \<lparr>c_key = ''b'', c_val = 5, c_before = ?mb, c_answer = True, c_after = ?mb\<rparr>,
                \<lparr>c_key = ''c'', c_val = 10, c_before = ?mb, c_answer = True, c_after = ?mb\<rparr>,
                \<lparr>c_key = ''a'', c_val = 1, c_before = ?mb, c_answer = True, c_after = ?mb\<rparr>]"
  let ?logu = "[\<lparr>c_key = ''d'', c_val = 15::int, c_before = sample_map, c_answer = True,
                   c_after = sample_map\<rparr>,
                \<lparr>c_key = ''b'', c_val = 5, c_before = sample_map, c_answer = False,
                   c_after = sample_map\<rparr>]"
  have dc: "Delete sample_map ''c'' = Inr (True, ?mc)"
    by (simp add: sample_map_def Delete_def getIndex_def shard_at_def set_shard_def
        sample_hash_def Let_def)
  have db: "Delete sample_map ''b'' = Inr (True, ?mb)"
    by (simp add: sample_map_def Delete_def getIndex_def shard_at_def set_shard_def
        sample_hash_def Let_def)
  have runc: "Range_hmap sample_order (logged_visitor (delete_at ''d'' ''c'')) sample_map (0, [])
                = Inr (?mc, 3, ?logc)"
    by (simp add: Range_hmap_def sample_map_def sample_order_def logged_visitor_def
        delete_at_def Delete_def getIndex_def shard_at_def set_shard_def sample_hash_def
        List.map_filter_def Let_def upt_rec)
  have runb: "Range_hmap sample_order (logged_visitor (delete_at ''d'' ''b'')) sample_map (0, [])
                = Inr (?mb, 4, ?logb)"
    by (simp add: Range_hmap_def sample_map_def sample_order_def logged_visitor_def
        delete_at_def Delete_def getIndex_def shard_at_def set_shard_def sample_hash_def
        List.map_filter_def Let_def upt_rec)
  have runu: "Range_hmap sample_order (logged_visitor (private_visitor (visit_upto 2)))
                sample_map (0, []) = Inr (sample_map, 2, ?logu)"
    by (simp add: Range_hmap_def sample_map_def sample_order_def logged_visitor_def
        private_visitor_def visit_upto_def List.map_filter_def Let_def upt_rec)
  have kc: "keeps_shards (delete_at ''d'' ''c'' :: (int, nat) visitor)"
    and kb: "keeps_shards (delete_at ''d'' ''b'' :: (int, nat) visitor)"
    and ku: "keeps_shards (private_visitor (visit_upto 2))"
    by (rule keeps_shards_delete_at keeps_shards_private)+
  obtain mc' sc' logc' where
    "Range_hmap sample_order (logged_visitor (delete_at ''d'' ''c'')) sample_map (0, [])
       = Inr (mc', sc', logc')"
    "Range_hmap sample_order (delete_at ''d'' ''c'') sample_map 0 = Inr (mc', sc')"
    using Range_visits [OF sample_map_ok(1) kc, where ord = sample_order and s = 0] by blast
  with runc have plainc: "Range_hmap sample_order (delete_at ''d'' ''c'') sample_map 0 = Inr (?mc, 3)"
    by simp
  obtain mb' sb' logb' where
    "Range_hmap sample_order (logged_visitor (delete_at ''d'' ''b'')) sample_map (0, [])
       = Inr (mb', sb', logb')"
    "Range_hmap sample_order (delete_at ''d'' ''b'') sample_map 0 = Inr (mb', sb')"
    using Range_visits [OF sample_map_ok(1) kb, where ord = sample_order and s = 0] by blast
  with runb have plainb: "Range_hmap sample_order (delete_at ''d'' ''b'') sample_map 0 = Inr (?mb, 4)"
    by simp
  obtain mu' su' logu' where
    "Range_hmap sample_order (logged_visitor (private_visitor (visit_upto 2))) sample_map (0, [])
       = Inr (mu', su', logu')"
    "Range_hmap sample_order (private_visitor (visit_upto 2)) sample_map 0 = Inr (mu', su')"
    using Range_visits [OF sample_map_ok(1) ku, where ord = sample_order and s = 0] by blast
  with runu have plainu:
    "Range_hmap sample_order (private_visitor (visit_upto 2)) sample_map 0 = Inr (sample_map, 2)"
    by simp
  have pc: "keys_placed ?mc"
    by (simp add: keys_placed_def getIndex_def sample_hash_def less_Suc_eq numeral_2_eq_2
        nth_Cons')
  have ic: "iterates sample_order ?mc"
    by (simp add: iterates_def sample_order_def List.map_filter_def less_Suc_eq numeral_2_eq_2
        nth_Cons')
  have c: "\<exists>m1 log. Delete sample_map ''c'' = Inr (True, m1)
        \<and> keys_placed m1 \<and> iterates sample_order m1
        \<and> Range_hmap sample_order (logged_visitor (delete_at ''d'' ''c'')) sample_map (0, [])
            = Inr (m1, 3, log)
        \<and> visited log = [(''d'', 15), (''b'', 5), (''a'', 1)]
        \<and> map c_answer log = [True, True, True]
        \<and> Range_hmap sample_order (delete_at ''d'' ''c'') sample_map 0 = Inr (m1, 3)"
    by (intro exI [of _ ?mc] exI [of _ ?logc] conjI dc pc ic runc plainc) simp_all
  have b: "\<exists>m1 log. Delete sample_map ''b'' = Inr (True, m1)
        \<and> Range_hmap sample_order (logged_visitor (delete_at ''d'' ''b'')) sample_map (0, [])
            = Inr (m1, 4, log)
        \<and> visited log = [(''d'', 15), (''b'', 5), (''c'', 10), (''a'', 1)]
        \<and> map c_answer log = [True, True, True, True]
        \<and> Range_hmap sample_order (delete_at ''d'' ''b'') sample_map 0 = Inr (m1, 4)"
    by (intro exI [of _ ?mb] exI [of _ ?logb] conjI db runb plainb) simp_all
  have u: "\<exists>log. Range_hmap sample_order (logged_visitor (private_visitor (visit_upto 2)))
                 sample_map (0, []) = Inr (sample_map, 2, log)
        \<and> visited log = [(''d'', 15), (''b'', 5)]
        \<and> map c_answer log = [True, False]
        \<and> Range_hmap sample_order (private_visitor (visit_upto 2)) sample_map 0
            = Inr (sample_map, 2)"
    by (intro exI [of _ ?logu] conjI runu plainu) simp_all
  show ?thesis using sample_map_ok(1,2,3) kc kb ku c b u by (intro conjI)
qed

section \<open>Indexing stays in bounds\<close>

lemma Prune_entries_shape:
  assumes "i < length (datas m)" "Prune_entries f i es (m, delNum, nowNum, s) = (err, (m1, st))"
  shows "length (datas m1) = length (datas m) \<and> seed m1 = seed m"
  using assms(2) unfolding Prune_entries_run [OF assms(1)]
  by (auto split: prod.splits)

lemma Prune_shards_shape:
  assumes "\<forall>i\<in>set is. i < length (datas m)"
    "Prune_shards ord f is (m, delNum, nowNum, s) = (res, m1, s1)"
  shows "length (datas m1) = length (datas m) \<and> seed m1 = seed m"
  using assms
proof (induction "is" arbitrary: m delNum nowNum s)
  case Nil
  then show ?case by simp
next
  case (Cons i "is")
  obtain err m2 d2 n2 s2 where
    inner: "Prune_entries f i (ord i (datas m ! i)) (m, delNum, nowNum, s) = (err, (m2, d2, n2, s2))"
    by (metis prod.exhaust)
  have i: "i < length (datas m)" using Cons.prems(1) by simp
  have shape: "length (datas m2) = length (datas m) \<and> seed m2 = seed m"
    using i inner by (rule Prune_entries_shape)
  show ?case
  proof (cases err)
    case (Some e)
    with inner Cons.prems(2) have "m1 = m2" by simp
    with shape show ?thesis by simp
  next
    case None
    with inner Cons.prems(2) have rest: "Prune_shards ord f is (m2, d2, n2, s2) = (res, m1, s1)"
      by simp
    have "\<forall>j\<in>set is. j < length (datas m2)" using Cons.prems(1) shape by simp
    from Cons.IH [OF this rest] shape show ?thesis by simp
  qed
qed

lemma shards_ok_Prune:
  "shards_ok (fst (snd (Prune ord f m s))) = shards_ok m"
proof -
  obtain res m1 s1 where r: "Prune ord f m s = (res, m1, s1)" by (metis prod.exhaust)
  then have "length (datas m1) = length (datas m) \<and> seed m1 = seed m"
    unfolding Prune_def by (intro Prune_shards_shape [where ord = ord and f = f]) simp_all
  with r show ?thesis by (simp add: shards_ok_def)
qed

text \<open>
  Claim C10. A map built by \<open>New\<close>, with or without a requested shard count, has a valid
  shard count: \<open>2 ^ k\<close> with \<open>k\<close> at most 16. On every map with a valid shard count and for
  every key, \<open>getIndex\<close> is at least 0 and less than \<open>ShardCount\<close>, so the read of the shard
  slice is in range and no point operation panics; and the map that an operation leaves
  behind has a valid shard count again, so this holds for the map throughout its life.
\<close>

theorem getIndex_in_bounds:
  fixes m :: "('v::zero) hmap"
  shows "shards_ok (New sd inShardCount :: 'v hmap)
    \<and> (shards_ok m \<longleftrightarrow> (\<exists>k\<le>16. ShardCount m = 2 ^ k))
    \<and> (shards_ok m \<longrightarrow>
         0 \<le> getIndex m key \<and> getIndex m key < int (ShardCount m)
         \<and> (\<exists>d. shard_at m (getIndex m key) = Inr d)
         \<and> (\<exists>m1. Set m key val = Inr m1 \<and> shards_ok m1)
         \<and> (\<exists>r m1. SetWithNotExist m key val = Inr (r, m1) \<and> shards_ok m1)
         \<and> (\<exists>r. Get m key = Inr (r, m))
         \<and> (\<exists>r. GetWithDefault m key val = Inr (r, m))
         \<and> (\<exists>b m1. Delete m key = Inr (b, m1) \<and> shards_ok m1)
         \<and> (\<exists>b m1 s'. DeleteIf m key delIf s = Inr (b, m1, s') \<and> shards_ok m1)
         \<and> shards_ok (fst (snd (Prune ord f m t)))
         \<and> (\<exists>u'. Range_hmap ord (private_visitor g) m u = Inr (m, u'))
         \<and> (keeps_shards h \<longrightarrow> (\<exists>m1 w'. Range_hmap ord h m w = Inr (m1, w') \<and> shards_ok m1)))"
proof (intro conjI impI)
  show "shards_ok (New sd inShardCount :: 'v hmap)" by (rule shards_ok_New)
  show "shards_ok m \<longleftrightarrow> (\<exists>k\<le>16. ShardCount m = 2 ^ k)"
    by (simp add: shards_ok_iff ShardCount_def)
next
  assume ok: "shards_ok m"
  show "0 \<le> getIndex m key" "getIndex m key < int (ShardCount m)"
    using getIndex_in_range [OF ok, of key] by (simp_all add: ShardCount_def)
  show "\<exists>d. shard_at m (getIndex m key) = Inr d"
    using shard_at_getIndex [OF ok, of key] by blast
  show "\<exists>m1. Set m key val = Inr m1 \<and> shards_ok m1"
    using Set_spec [OF ok, of key val] by blast
  show "\<exists>r. Get m key = Inr (r, m)"
    using Get_eq [OF ok, of key] by blast
  show "\<exists>r. GetWithDefault m key val = Inr (r, m)"
    using GetWithDefault_eq [OF ok, of key val] by blast
  show "\<exists>r m1. SetWithNotExist m key val = Inr (r, m1) \<and> shards_ok m1"
  proof (cases "entry_of m key")
    case None
    then show ?thesis using SetWithNotExist_absent [OF ok None, of val] by blast
  next
    case (Some old)
    then show ?thesis using SetWithNotExist_present [OF ok Some, of val] ok by blast
  qed
  show "\<exists>b m1. Delete m key = Inr (b, m1) \<and> shards_ok m1"
  proof (cases "entry_of m key")
    case None
    then show ?thesis using Delete_absent [OF ok None] ok by blast
  next
    case (Some v)
    then show ?thesis using Delete_present [OF ok Some] by blast
  qed
  show "\<exists>b m1 s'. DeleteIf m key delIf s = Inr (b, m1, s') \<and> shards_ok m1"
  proof (cases "entry_of m key")
    case None
    have "DeleteIf m key delIf s = Inr (False, m, s)" using ok None by (rule DeleteIf_absent)
    then show ?thesis using ok by blast
  next
    case (Some v)
    obtain b s' where d: "delIf v s = (b, s')" by (cases "delIf v s")
    show ?thesis
    proof (cases b)
      case False
      with d have "delIf v s = (False, s')" by simp
      then have "DeleteIf m key delIf s = Inr (False, m, s')"
        by (rule DeleteIf_refused [where delIf = delIf and s = s, OF ok Some])
      then show ?thesis using ok by blast
    next
      case True
      with d have "delIf v s = (True, s')" by simp
      then have "\<exists>m1. DeleteIf m key delIf s = Inr (True, m1, s') \<and> shards_ok m1
          \<and> (\<forall>k. entry_of m1 k = (if k = key then None else entry_of m k))"
        by (rule DeleteIf_accepted [where delIf = delIf and s = s, OF ok Some])
      then show ?thesis by blast
    qed
  qed
  show "shards_ok (fst (snd (Prune ord f m t)))" using ok by (simp add: shards_ok_Prune)
  show "\<exists>u'. Range_hmap ord (private_visitor g) m u = Inr (m, u')"
    unfolding Range_hmap_def by (rule Range_shards_private) simp
  show "\<exists>m1 w'. Range_hmap ord h m w = Inr (m1, w') \<and> shards_ok m1" if "keeps_shards h"
  proof -
    have "\<forall>i\<in>set [0..<length (datas m)]. i < length (datas m)" by simp
    from Range_shards_total [OF that this, where ord = ord and s = w] obtain m1 w' where
      "Range_shards ord h [0..<length (datas m)] (m, w) = Inr (m1, w')"
      "length (datas m1) = length (datas m)"
      by blast
    then show ?thesis using ok by (auto simp: Range_hmap_def shards_ok_def)
  qed
qed

theorem getIndex_in_bounds_witness:
  "shards_ok (New sample_hash None :: int hmap)
   \<and> ShardCount (New sample_hash None :: int hmap) = 64
   \<and> getIndex (New sample_hash None :: int hmap) ''name'' = 46
   \<and> 0 \<le> getIndex (New sample_hash None :: int hmap) ''name''
   \<and> getIndex (New sample_hash None :: int hmap) ''name''
        < int (ShardCount (New sample_hash None :: int hmap))
   \<and> (\<exists>m1. Set (New sample_hash None) ''name'' (1::int) = Inr m1 \<and> shards_ok m1)"
proof -
  let ?m = "New sample_hash None :: int hmap"
  note concl = getIndex_in_bounds [where sd = sample_hash and inShardCount = None and m = ?m
      and key = "''name''" and val = 1 and delIf = "\<lambda>v (s::unit). (False, s)" and s = "()"
      and ord = sample_order and f = stop_at_ten and t = "()" and g = "visit_upto 2" and u = 0
      and h = "delete_at ''d'' ''c''" and w = 0]
  have ok: "shards_ok ?m" using concl by blast
  have "ShardCount ?m = 64" by (simp add: ShardCount_def New_def defaultShardCount_def)
  moreover have "getIndex ?m ''name'' = 46"
    by (simp add: getIndex_def New_def defaultShardCount_def sample_hash_def)
  moreover have "0 \<le> getIndex ?m ''name''" "getIndex ?m ''name'' < int (ShardCount ?m)"
    "\<exists>m1. Set ?m ''name'' 1 = Inr m1 \<and> shards_ok m1"
    using concl ok by blast+
  ultimately show ?thesis using ok by blast
qed

section \<open>The invariants along the life of a map\<close>

text \<open>
  \<open>New\<close> establishes the three properties of the map that the theorems on \<open>Range\<close> and
  \<open>Prune\<close> assume, and every mutating point operation keeps them: the shard count is valid,
  every key sits in its shard, and every shard is finite. For a map with finite shards an
  iteration order exists.
\<close>

lemma keys_placed_New:
  "keys_placed (New sd inShardCount)"
  by (simp add: keys_placed_def New_def Let_def)

lemma finite_shards_New:
  "\<forall>d\<in>set (datas (New sd inShardCount)). finite (dom d)"
  by (simp add: New_def Let_def)

lemma keys_placed_set_shard:
  assumes ok: "shards_ok m" and placed: "keys_placed m"
  shows "keys_placed (set_shard m (getIndex m key) ((datas m ! nat (getIndex m key))(key := x)))"
proof -
  let ?i = "nat (getIndex m key)"
  let ?m1 = "set_shard m (getIndex m key) ((datas m ! ?i)(key := x))"
  have idx: "0 \<le> getIndex m key" "?i < length (datas m)"
    using getIndex_in_range [OF ok, of key] by auto
  have kp: "getIndex m k = int j" if "j < length (datas m)" "k \<in> dom (datas m ! j)" for j k
    using placed that unfolding keys_placed_def by blast
  show ?thesis
    unfolding keys_placed_def
  proof (intro allI impI ballI)
    fix j k
    assume j: "j < length (datas ?m1)" and k: "k \<in> dom (datas ?m1 ! j)"
    from j have j': "j < length (datas m)" by simp
    have "getIndex m k = int j"
    proof (cases "j = ?i")
      case True
      have "datas ?m1 ! j = (datas m ! ?i)(key := x)"
        using True idx(2) by (simp add: datas_set_shard)
      with k have "k = key \<or> k \<in> dom (datas m ! ?i)"
        by (cases "k = key") (auto split: if_splits)
      then show ?thesis
      proof
        assume "k = key"
        with True idx(1) show ?thesis by simp
      next
        assume "k \<in> dom (datas m ! ?i)"
        then have "getIndex m k = int ?i" using idx(2) by (intro kp)
        with True show ?thesis by simp
      qed
    next
      case False
      then have "datas ?m1 ! j = datas m ! j" by (simp add: datas_set_shard)
      with k have "k \<in> dom (datas m ! j)" by simp
      with j' show ?thesis by (intro kp)
    qed
    then show "getIndex ?m1 k = int j" by simp
  qed
qed

lemma finite_shards_set_shard:
  assumes "\<forall>d\<in>set (datas m). finite (dom d)" "finite (dom d')"
  shows "\<forall>d\<in>set (datas (set_shard m i d')). finite (dom d)"
  using assms by (auto simp: datas_set_shard dest: set_update_subset_insert [THEN subsetD])

lemma entry_update_keeps_invariants:
  assumes ok: "shards_ok m" and placed: "keys_placed m"
    and fin: "\<forall>d\<in>set (datas m). finite (dom d)"
    and m1: "m1 = set_shard m (getIndex m key) ((datas m ! nat (getIndex m key))(key := x))"
  shows "shards_ok m1 \<and> keys_placed m1 \<and> (\<forall>d\<in>set (datas m1). finite (dom d))"
proof -
  let ?d = "datas m ! nat (getIndex m key)"
  have "nat (getIndex m key) < length (datas m)"
    using getIndex_in_range [OF ok, of key] by auto
  then have "finite (dom ?d)" using fin by simp
  then have "finite (dom (?d(key := x)))" by (cases x) simp_all
  with fin have "\<forall>d\<in>set (datas m1). finite (dom d)"
    unfolding m1 by (rule finite_shards_set_shard)
  moreover have "keys_placed m1" unfolding m1 using ok placed by (rule keys_placed_set_shard)
  moreover have "shards_ok m1" unfolding m1 using ok by simp
  ultimately show ?thesis by blast
qed

lemma point_ops_keep_invariants:
  assumes ok: "shards_ok m" and placed: "keys_placed m"
    and fin: "\<forall>d\<in>set (datas m). finite (dom d)"
  shows "Set m key val = Inr m1 \<Longrightarrow>
           shards_ok m1 \<and> keys_placed m1 \<and> (\<forall>d\<in>set (datas m1). finite (dom d))"
    and "SetWithNotExist m key val = Inr (r, m1) \<Longrightarrow>
           shards_ok m1 \<and> keys_placed m1 \<and> (\<forall>d\<in>set (datas m1). finite (dom d))"
    and "Delete m key = Inr (b, m1) \<Longrightarrow>
           shards_ok m1 \<and> keys_placed m1 \<and> (\<forall>d\<in>set (datas m1). finite (dom d))"
    and "DeleteIf m key delIf s = Inr (b, m1, s') \<Longrightarrow>
           shards_ok m1 \<and> keys_placed m1 \<and> (\<forall>d\<in>set (datas m1). finite (dom d))"
proof -
  note upd = entry_update_keeps_invariants [OF ok placed fin]
  have same: "shards_ok m \<and> keys_placed m \<and> (\<forall>d\<in>set (datas m). finite (dom d))"
    using ok placed fin by blast
  show "shards_ok m1 \<and> keys_placed m1 \<and> (\<forall>d\<in>set (datas m1). finite (dom d))"
    if "Set m key val = Inr m1"
    using that by (intro upd [where x = "Some val" and key = key]) (simp add: Set_eq [OF ok])
  show "shards_ok m1 \<and> keys_placed m1 \<and> (\<forall>d\<in>set (datas m1). finite (dom d))"
    if h: "SetWithNotExist m key val = Inr (r, m1)"
  proof (cases "entry_of m key")
    case None
    with h show ?thesis
      by (intro upd [where x = "Some val" and key = key]) (simp add: SetWithNotExist_eq [OF ok])
  next
    case (Some old)
    with h have "m1 = m" by (simp add: SetWithNotExist_eq [OF ok])
    with same show ?thesis by simp
  qed
  show "shards_ok m1 \<and> keys_placed m1 \<and> (\<forall>d\<in>set (datas m1). finite (dom d))"
    if h: "Delete m key = Inr (b, m1)"
  proof (cases "entry_of m key")
    case None
    with h have "m1 = m" by (simp add: Delete_eq [OF ok])
    with same show ?thesis by simp
  next
    case (Some v)
    with h show ?thesis
      by (intro upd [where x = None and key = key]) (simp add: Delete_eq [OF ok])
  qed
  show "shards_ok m1 \<and> keys_placed m1 \<and> (\<forall>d\<in>set (datas m1). finite (dom d))"
    if h: "DeleteIf m key delIf s = Inr (b, m1, s')"
  proof (cases "entry_of m key")
    case None
    with h have "m1 = m" by (simp add: DeleteIf_eq [OF ok])
    with same show ?thesis by simp
  next
    case (Some v)
    obtain c t where d: "delIf v s = (c, t)" by (cases "delIf v s")
    show ?thesis
    proof (cases c)
      case False
      with h Some d have "m1 = m" by (simp add: DeleteIf_eq [OF ok])
      with same show ?thesis by simp
    next
      case True
      with h Some d show ?thesis
        by (intro upd [where x = None and key = key]) (simp add: DeleteIf_eq [OF ok])
    qed
  qed
qed

lemma Prune_keeps_invariants:
  assumes ok: "shards_ok m" and placed: "keys_placed m" and it: "iterates ord m"
    and run: "Prune ord f m s = (res, m1, s1)"
  shows "shards_ok m1 \<and> keys_placed m1 \<and> (\<forall>d\<in>set (datas m1). finite (dom d))"
proof -
  obtain err ds n s' where "prune_run f (all_entries ord m) s = (err, ds, n, s')"
    by (metis prod.exhaust)
  with run have m1: "m1 = m\<lparr>datas := map (\<lambda>d. d |` (- set ds)) (datas m)\<rparr>"
    by (simp add: Prune_run [OF placed it])
  have "finite (dom (datas m ! i))" if "i < length (datas m)" for i
  proof -
    have "finite (fst ` set (ord i (datas m ! i)))" by simp
    then show ?thesis by (simp only: iterates_shard(3) [OF it that])
  qed
  then have fin: "\<forall>d\<in>set (datas m). finite (dom d)"
    by (simp add: all_set_conv_all_nth)
  have "finite (dom (d |` (- set ds)))" if "d \<in> set (datas m)" for d
  proof (rule finite_subset)
    show "dom (d |` (- set ds)) \<subseteq> dom d" by auto
    show "finite (dom d)" using fin that by blast
  qed
  then have "\<forall>d\<in>set (datas m1). finite (dom d)" unfolding m1 by simp
  moreover have "shards_ok m1" unfolding m1 using ok by (simp add: shards_ok_restrict)
  moreover have "keys_placed m1" unfolding m1 using placed by (rule keys_placed_restrict)
  ultimately show ?thesis by blast
qed

lemma finite_map_enumeration:
  assumes "finite (dom d)"
  shows "\<exists>es. distinct (map fst es) \<and> map_of es = d"
proof -
  obtain ks where ks: "set ks = dom d" "distinct ks"
    using finite_distinct_list [OF assms] by blast
  let ?es = "map (\<lambda>k. (k, the (d k))) ks"
  have "map fst ?es = ks" by (simp add: o_def)
  then have "distinct (map fst ?es)" using ks(2) by simp
  moreover have "map_of ?es = d"
  proof (rule ext)
    fix k
    show "map_of ?es k = d k"
    proof (cases "k \<in> dom d")
      case True
      then have "map_of ?es k = Some (the (d k))"
        using ks(1) by (simp add: map_of_map_restrict)
      with True show ?thesis by auto
    next
      case False
      then have "k \<notin> fst ` set ?es" using ks(1) by force
      then have "map_of ?es k = None" by (simp add: map_of_eq_None_iff)
      with False show ?thesis by (simp add: domIff)
    qed
  qed
  ultimately show ?thesis by blast
qed

lemma iteration_order_exists:
  assumes "\<forall>d\<in>set (datas m). finite (dom d)"
  shows "\<exists>ord. iterates ord m"
proof -
  let ?ord = "\<lambda>(i::nat) d. SOME es. distinct (map fst es) \<and> map_of es = d"
  have "distinct (map fst (?ord i (datas m ! i))) \<and> map_of (?ord i (datas m ! i)) = datas m ! i"
    if "i < length (datas m)" for i
  proof -
    have "finite (dom (datas m ! i))" using assms that by simp
    from someI_ex [OF finite_map_enumeration [OF this]] show ?thesis by simp
  qed
  then have "iterates ?ord m" by (simp add: iterates_def)
  then show ?thesis by blast
qed

end
